theory Spec2Isabelle
  imports Complex_Main "HOL-Library.Multiset" "HOL-Library.Sublist"
begin

section \<open>Errors and model attributes\<close>

text \<open>
  Every Python exception that the modelled code can raise is a value of \<open>error\<close>;
  a function that may raise returns \<open>error + 'a\<close> with \<open>Inl\<close> for the exception.
\<close>

datatype error =
    ValueError
  | IndexError
  | KeyError
  | ZeroDivisionError
  | AssertionError
  | NotSamplingError

datatype task = Rating | Ranking

text \<open>
  The attributes that \<open>Base\<close> and the two models read. User ids are Python ints
  (\<open>int\<close>), item ids that index the score vector are \<open>nat\<close>. \<open>user_consumed\<close>
  is the dictionary taken from the training data in \<open>fit\<close>.
\<close>

record base =
  task :: task
  n_users :: int
  n_items :: int
  default_prediction :: real
  lower_bound :: real
  upper_bound :: real
  user_consumed :: "int \<rightharpoonup> nat list"

text \<open>
  \<open>WideDeep\<close>: the tensor engine is external. \<open>output_recommend u\<close> is what
  \<open>sess.run(self.output, feed_dict)\<close> returns in \<open>recommend_user\<close> for user \<open>u\<close>
  (one score per item), \<open>output_predict us is\<close> what it returns in \<open>predict\<close>
  for the batch of pairs; the embedding lookups of the engine fail on an id outside the
  tables, so this call may raise.
\<close>

record wide_deep = base +
  batch_sampling :: bool
  n_epochs :: nat
  output_recommend :: "int \<Rightarrow> real list"
  output_predict :: "int list \<Rightarrow> int list \<Rightarrow> error + real list"

text \<open>
  \<open>YouTubeMatch\<close>: the latent vectors cached by \<open>_set_latent_vectors\<close>, one row
  per user and one row per item.
\<close>

record youtube_match = base +
  user_vector :: "real list list"
  item_weights :: "real list list"

section \<open>Base: the single-user guard\<close>

text \<open>
  \<open>Base._check_unknown_user\<close>: the id itself when \<open>0 <= user < n_users\<close>, otherwise
  a diagnostic is printed and the function returns \<open>None\<close>.
\<close>

definition check_unknown_user :: "'a base_scheme \<Rightarrow> int \<Rightarrow> int option" where
  "check_unknown_user self user =
     (if 0 \<le> user \<and> user < n_users self then Some user else None)"

text \<open>Python's truth value of an \<open>Optional[int]\<close>: \<open>None\<close> and \<open>0\<close> are false.\<close>

fun truthy :: "int option \<Rightarrow> bool" where
  "truthy None = False"
| "truthy (Some u) = (u \<noteq> 0)"

section \<open>numpy and itertools primitives used by the selection\<close>

text \<open>
  \<open>np.argpartition(a, kth)\<close> is a library primitive; the models below take it as a
  parameter. Its documented contract: for a non-empty array \<open>kth\<close> must satisfy
  \<open>-n <= kth < n\<close> (otherwise \<open>ValueError\<close>: kth out of bounds); the result is a
  permutation of the indices in which the element at the (normalised) position \<open>kth\<close>
  is where a full sort would put it, everything before it is not larger and everything
  after it not smaller. The order inside the two parts is not specified. For an empty
  array numpy skips the bounds check and returns the empty index array.
\<close>

definition norm_kth :: "nat \<Rightarrow> int \<Rightarrow> nat" where
  "norm_kth n kth = nat (if kth < 0 then kth + int n else kth)"

definition is_argpartition :: "real list \<Rightarrow> int \<Rightarrow> error + nat list \<Rightarrow> bool" where
  "is_argpartition a kth r =
     (let n = length a in
      if n = 0 then r = Inr []
      else if kth < - int n \<or> int n \<le> kth then r = Inl ValueError
      else (case r of
              Inl e \<Rightarrow> False
            | Inr p \<Rightarrow>
                mset p = mset [0..<n] \<and>
                list_all (\<lambda>i. a ! (p ! i) \<le> a ! (p ! norm_kth n kth)) [0..<norm_kth n kth] \<and>
                list_all (\<lambda>i. a ! (p ! norm_kth n kth) \<le> a ! (p ! i)) [norm_kth n kth..<n]))"

text \<open>Python's slice \<open>xs[start:]\<close>, with a negative start counted from the end.\<close>

definition slice_from :: "'a list \<Rightarrow> int \<Rightarrow> 'a list" where
  "slice_from xs start =
     (let n = int (length xs);
          s = (if start < 0 then max 0 (start + n) else min start n)
      in drop (nat s) xs)"

text \<open>
  numpy's fancy indexing \<open>recos[ids]\<close> with non-negative indices: \<open>IndexError\<close> when
  an index is out of bounds.
\<close>

definition take_ids :: "real list \<Rightarrow> nat list \<Rightarrow> error + real list" where
  "take_ids recos ids =
     (if list_all (\<lambda>i. i < length recos) ids then Inr (map ((!) recos) ids)
      else Inl IndexError)"

text \<open>
  \<open>list(islice(gen, n))\<close>: \<open>islice\<close> refuses a negative stop with \<open>ValueError\<close>,
  otherwise the first \<open>n\<close> elements of the generator are taken.
\<close>

definition islice :: "'a list \<Rightarrow> int \<Rightarrow> error + 'a list" where
  "islice xs n = (if n < 0 then Inl ValueError else Inr (take (nat n) xs))"

section \<open>Top-N selection\<close>

text \<open>
  The last five statements of both \<open>recommend_user\<close> bodies, which are the same text
  in \<open>WideDeep\<close> and \<open>YouTubeMatch\<close>:
  \<^verbatim>\<open>
    count = n_rec + len(consumed)
    ids = np.argpartition(recos, -count)[-count:]
    rank = sorted(zip(ids, recos[ids]), key=lambda x: -x[1])
    return list(islice((rec for rec in rank if rec[0] not in consumed), n_rec))
  \<close>
  \<open>sorted\<close> is stable and its key is the negated score alone. The source's
  \<open>count\<close> is written \<open>cnt\<close> here.
\<close>

definition select_ids ::
  "(real list \<Rightarrow> int \<Rightarrow> error + nat list) \<Rightarrow> real list \<Rightarrow> int \<Rightarrow> error + nat list" where
  "select_ids argpartition recos cnt =
     (case argpartition recos (- cnt) of
        Inl e \<Rightarrow> Inl e
      | Inr p \<Rightarrow> Inr (slice_from p (- cnt)))"

definition rank_ids :: "real list \<Rightarrow> nat list \<Rightarrow> error + (nat \<times> real) list" where
  "rank_ids recos ids =
     (case take_ids recos ids of
        Inl e \<Rightarrow> Inl e
      | Inr scores \<Rightarrow> Inr (sort_key (\<lambda>x. - snd x) (zip ids scores)))"

definition top_n ::
  "(real list \<Rightarrow> int \<Rightarrow> error + nat list) \<Rightarrow> real list \<Rightarrow> nat list \<Rightarrow> int
     \<Rightarrow> error + (nat \<times> real) list" where
  "top_n argpartition recos consumed n_rec =
     (let cnt = n_rec + int (length consumed) in
      case select_ids argpartition recos cnt of
        Inl e \<Rightarrow> Inl e
      | Inr ids \<Rightarrow>
          (case rank_ids recos ids of
             Inl e \<Rightarrow> Inl e
           | Inr rank \<Rightarrow> islice (filter (\<lambda>rec. fst rec \<notin> set consumed) rank) n_rec))"

text \<open>Dictionary lookup \<open>self.user_consumed[user]\<close>: \<open>KeyError\<close> for a missing key.\<close>

definition lookup_consumed :: "'a base_scheme \<Rightarrow> int \<Rightarrow> error + nat list" where
  "lookup_consumed self user =
     (case user_consumed self user of None \<Rightarrow> Inl KeyError | Some c \<Rightarrow> Inr c)"

definition sigmoid :: "real \<Rightarrow> real" where
  "sigmoid x = 1 / (1 + exp (- x))"

text \<open>
  \<open>WideDeep.recommend_user\<close>. The result \<open>Inr None\<close> is the bare \<open>return\<close>
  (no recommendation), \<open>Inr (Some rank)\<close> the returned list of (item, score) pairs.
  \<open>WideDeep_scores\<close> is the array \<open>recos\<close> after the engine's output has been
  passed through the sigmoid (ranking task only).
\<close>

definition WideDeep_scores :: "'a wide_deep_scheme \<Rightarrow> int \<Rightarrow> real list" where
  "WideDeep_scores self user =
     (let recos = output_recommend self user in
      if task self = Ranking then map sigmoid recos else recos)"

definition WideDeep_recommend_user ::
  "(real list \<Rightarrow> int \<Rightarrow> error + nat list) \<Rightarrow> 'a wide_deep_scheme \<Rightarrow> int \<Rightarrow> int
     \<Rightarrow> error + (nat \<times> real) list option" where
  "WideDeep_recommend_user argpartition self user n_rec =
     (let user' = check_unknown_user self user in
      if \<not> truthy user' then Inr None
      else
        let recos = WideDeep_scores self user
        in case lookup_consumed self user of
             Inl e \<Rightarrow> Inl e
           | Inr consumed \<Rightarrow>
               (case top_n argpartition recos consumed n_rec of
                  Inl e \<Rightarrow> Inl e
                | Inr rank \<Rightarrow> Inr (Some rank)))"

text \<open>
  \<open>YouTubeMatch.recommend_user\<close>: the scores are the products of the user's latent
  vector with every row of \<open>item_weights\<close>, passed through the sigmoid. Reading a row
  of \<open>user_vector\<close> beyond its length raises \<open>IndexError\<close>.
\<close>

definition dot :: "real list \<Rightarrow> real list \<Rightarrow> real" where
  "dot v w = sum_list (map2 (*) v w)"

definition YouTubeMatch_scores :: "'a youtube_match_scheme \<Rightarrow> nat \<Rightarrow> real list" where
  "YouTubeMatch_scores self u =
     map sigmoid (map (dot (user_vector self ! u)) (item_weights self))"

definition YouTubeMatch_recommend_user ::
  "(real list \<Rightarrow> int \<Rightarrow> error + nat list) \<Rightarrow> 'a youtube_match_scheme \<Rightarrow> int \<Rightarrow> int
     \<Rightarrow> error + (nat \<times> real) list option" where
  "YouTubeMatch_recommend_user argpartition self user n_rec =
     (let user' = check_unknown_user self user in
      if \<not> truthy user' then Inr None
      else
        case lookup_consumed self user of
          Inl e \<Rightarrow> Inl e
        | Inr consumed \<Rightarrow>
            if \<not> nat user < length (user_vector self) then Inl IndexError
            else
              let recos = YouTubeMatch_scores self (nat user)
              in (case top_n argpartition recos consumed n_rec of
                    Inl e \<Rightarrow> Inl e
                  | Inr rank \<Rightarrow> Inr (Some rank)))"

section \<open>Base: the batch guard, on numpy arrays in a store\<close>

text \<open>
  \<open>_check_unknown\<close> assigns into the arrays it is given (\<open>user[unknown_index] = 0\<close>) and
  returns the same array objects, so the arrays live in a store: an address names an
  array, \<open>cells\<close> holds its elements and \<open>next_addr\<close> is the next free address.
\<close>

type_synonym addr = nat

record heap =
  cells :: "addr \<Rightarrow> int list"
  next_addr :: addr

definition alloc :: "heap \<Rightarrow> int list \<Rightarrow> addr \<times> heap" where
  "alloc h xs = (next_addr h, h\<lparr>cells := (cells h)(next_addr h := xs), next_addr := Suc (next_addr h)\<rparr>)"

text \<open>
  What a caller may pass to \<open>predict\<close> for \<open>user\<close> and for \<open>item\<close>: a Python int, a
  Python list of ints, or a numpy array that the caller holds.
\<close>

datatype py_arg = PyInt int | PyList "int list" | NdArray addr

text \<open>
  \<open>np.asarray([user]) if isinstance(user, int) else np.asarray(user)\<close>: an int and a
  list are copied into a new array; an array is returned as it is (no copy).
\<close>

fun asarray :: "heap \<Rightarrow> py_arg \<Rightarrow> addr \<times> heap" where
  "asarray h (PyInt i) = alloc h [i]"
| "asarray h (PyList xs) = alloc h xs"
| "asarray h (NdArray a) = (a, h)"

text \<open>
  numpy's assignment \<open>xs[index] = v\<close> for a collection of non-negative positions:
  \<open>IndexError\<close> when a position is out of bounds, otherwise every named position is
  overwritten.
\<close>

definition assign_at :: "nat set \<Rightarrow> 'a \<Rightarrow> 'a list \<Rightarrow> error + 'a list" where
  "assign_at index v xs =
     (if \<exists>i \<in> index. length xs \<le> i then Inl IndexError
      else Inr (map (\<lambda>i. if i \<in> index then v else xs ! i) [0..<length xs]))"

text \<open>
  \<open>Base._check_unknown\<close>. \<open>unknown_index\<close> is \<open>list(set(...) | set(...))\<close>, whose order
  Python does not specify: the model keeps the set. The two assignments run in the
  source's order, the second on the store the first has left. The diagnostic (the
  offending raw ids, read before the assignment, and the printed line) is output only
  and is not modelled.
\<close>

definition unknown_positions :: "int \<Rightarrow> int list \<Rightarrow> nat list" where
  "unknown_positions n xs = filter (\<lambda>i. n \<le> xs ! i \<or> xs ! i < 0) [0..<length xs]"

definition store_assign :: "heap \<Rightarrow> addr \<Rightarrow> nat set \<Rightarrow> int \<Rightarrow> error + heap" where
  "store_assign h a index v =
     (case assign_at index v (cells h a) of
        Inl e \<Rightarrow> Inl e
      | Inr xs \<Rightarrow> Inr (h\<lparr>cells := (cells h)(a := xs)\<rparr>))"

definition check_unknown ::
  "'a base_scheme \<Rightarrow> heap \<Rightarrow> addr \<Rightarrow> addr \<Rightarrow> error + (nat \<times> nat set \<times> addr \<times> addr) \<times> heap" where
  "check_unknown self h user item =
     (let unknown_user_indices = unknown_positions (n_users self) (cells h user);
          unknown_item_indices = unknown_positions (n_items self) (cells h item);
          unknown_index = set unknown_user_indices \<union> set unknown_item_indices;
          unknown_num = card unknown_index
      in if 0 < unknown_num then
           (case store_assign h user unknown_index 0 of
              Inl e \<Rightarrow> Inl e
            | Inr h1 \<Rightarrow>
                (case store_assign h1 item unknown_index 0 of
                   Inl e \<Rightarrow> Inl e
                 | Inr h2 \<Rightarrow> Inr ((unknown_num, unknown_index, user, item), h2)))
         else Inr ((unknown_num, unknown_index, user, item), h))"

text \<open>
  \<open>WideDeep.predict\<close>. \<open>np.clip(preds, lower, upper)\<close> is \<open>minimum(maximum(x, lower),
  upper)\<close> on every element. The result is the array \<open>preds\<close> (a new array, returned by
  value here) together with the store the call leaves behind.
\<close>

definition clip :: "real \<Rightarrow> real \<Rightarrow> real \<Rightarrow> real" where
  "clip lo hi x = min (max x lo) hi"

definition WideDeep_predict ::
  "'a wide_deep_scheme \<Rightarrow> heap \<Rightarrow> py_arg \<Rightarrow> py_arg \<Rightarrow> error + real list \<times> heap" where
  "WideDeep_predict self h user item =
     (let (user, h) = asarray h user;
          (item, h) = asarray h item
      in case check_unknown self h user item of
           Inl e \<Rightarrow> Inl e
         | Inr ((unknown_num, unknown_index, user, item), h) \<Rightarrow>
             (case output_predict self (cells h user) (cells h item) of
                Inl e \<Rightarrow> Inl e
              | Inr preds \<Rightarrow>
                  let preds = (case task self of
                                 Rating \<Rightarrow> map (clip (lower_bound self) (upper_bound self)) preds
                               | Ranking \<Rightarrow> map sigmoid preds)
                  in if 0 < unknown_num then
                       (case assign_at unknown_index (default_prediction self) preds of
                          Inl e \<Rightarrow> Inl e
                        | Inr preds \<Rightarrow> Inr (preds, h))
                     else Inr (preds, h)))"

section \<open>WideDeep.fit and the sampling guard\<close>

text \<open>
  \<open>Base._check_has_sampled(data, verbose)\<close> raises \<open>NotSamplingError\<close> when the data has
  not been sampled and \<open>verbose > 1\<close>. Of the training data only the flag matters here.
\<close>

record transformed_set =
  has_sampled :: bool

definition check_has_sampled :: "'a transformed_set_scheme \<Rightarrow> int \<Rightarrow> error + unit" where
  "check_has_sampled data verbose =
     (if \<not> has_sampled data \<and> 1 < verbose then Inl NotSamplingError else Inr ())"

text \<open>
  \<open>TfMixin.train_feat\<close> runs \<open>n_epochs\<close> epochs and, when \<open>verbose > 1\<close>, evaluates after
  every epoch (\<open>print_metrics\<close>). The optimisation itself is external; the model records
  which generator fed the training and how many epochs were trained and evaluated.
\<close>

datatype data_generator = NegativeSampling | DataGenFeat

record fit_log =
  generator :: data_generator
  epochs_trained :: nat
  epochs_evaluated :: nat

definition train_epoch :: "int \<Rightarrow> nat \<Rightarrow> fit_log \<Rightarrow> fit_log" where
  "train_epoch verbose epoch l =
     (let l = l\<lparr>epochs_trained := Suc (epochs_trained l)\<rparr>
      in if 1 < verbose then l\<lparr>epochs_evaluated := Suc (epochs_evaluated l)\<rparr> else l)"

definition train_feat :: "'a wide_deep_scheme \<Rightarrow> data_generator \<Rightarrow> int \<Rightarrow> fit_log" where
  "train_feat self data_generator verbose =
     fold (train_epoch verbose) [1..<Suc (n_epochs self)]
       \<lparr>generator = data_generator, epochs_trained = 0, epochs_evaluated = 0\<rparr>"

text \<open>
  \<open>WideDeep.fit\<close>, from the guard on: the check runs only for a ranking model with
  \<open>batch_sampling\<close>; every other configuration goes straight to \<open>DataGenFeat\<close>.
\<close>

definition WideDeep_fit ::
  "'a wide_deep_scheme \<Rightarrow> 'b transformed_set_scheme \<Rightarrow> int \<Rightarrow> error + fit_log" where
  "WideDeep_fit self train_data verbose =
     (if task self = Ranking \<and> batch_sampling self then
        (case check_has_sampled train_data verbose of
           Inl e \<Rightarrow> Inl e
         | Inr u \<Rightarrow> Inr (train_feat self NegativeSampling verbose))
      else Inr (train_feat self DataGenFeat verbose))"

section \<open>Ranking metrics (metrics.py)\<close>

text \<open>
  Item ids are Python ints, scores and metric values are reals (the floating-point
  rounding of numpy is not modelled). \<open>y_true_list\<close> and \<open>y_reco_list\<close> are dictionaries
  from users to arrays of item ids, \<open>users\<close> is the sequence the loops run over, and
  \<open>k\<close> is a length (\<open>np.zeros(k)\<close>).

  \<open>np.intersect1d(ar1, ar2, assume_unique=True, return_indices=True)\<close> does not remove
  duplicates. It concatenates the two arrays, sorts the positions with a stable sort
  (\<open>kind='mergesort'\<close>), and reports every position of the sorted array whose value
  equals the next one:
  \<^verbatim>\<open>
    aux = np.concatenate((ar1, ar2))
    aux_sort_indices = np.argsort(aux, kind='mergesort')
    aux = aux[aux_sort_indices]
    mask = aux[1:] == aux[:-1]
    int1d = aux[:-1][mask]
    ar1_indices = aux_sort_indices[:-1][mask]
    ar2_indices = aux_sort_indices[1:][mask] - ar1.size
  \<close>
  A stable sort is determined by its input, so the insertion sort \<open>sort_key\<close> returns
  the same permutation as numpy's merge sort.
\<close>

definition argsort_stable :: "int list \<Rightarrow> nat list" where
  "argsort_stable aux = sort_key ((!) aux) [0..<length aux]"

definition intersect1d :: "int list \<Rightarrow> int list \<Rightarrow> int list \<times> nat list \<times> int list" where
  "intersect1d ar1 ar2 =
     (let aux = ar1 @ ar2;
          aux_sort_indices = argsort_stable aux;
          aux = map ((!) aux) aux_sort_indices;
          mask = filter (\<lambda>j. aux ! Suc j = aux ! j) [0..<length aux - 1]
      in (map ((!) aux) mask,
          map ((!) aux_sort_indices) mask,
          map (\<lambda>j. int (aux_sort_indices ! Suc j) - int (length ar1)) mask))"

text \<open>Without \<open>return_indices\<close> (as \<open>recall_at_k\<close> calls it) the concatenation is sorted itself.\<close>

definition intersect1d_values :: "int list \<Rightarrow> int list \<Rightarrow> int list" where
  "intersect1d_values ar1 ar2 =
     (let aux = sort (ar1 @ ar2);
          mask = filter (\<lambda>j. aux ! Suc j = aux ! j) [0..<length aux - 1]
      in map ((!) aux) mask)"

text \<open>
  \<open>rank_list = np.zeros(k); rank_list[indices_in_reco] = 1\<close>: an index \<open>i\<close> is valid
  when \<open>-k <= i < k\<close>, a negative one counts from the end, any other raises \<open>IndexError\<close>.
\<close>

definition norm_index :: "nat \<Rightarrow> int \<Rightarrow> nat" where
  "norm_index k i = nat (if i < 0 then i + int k else i)"

definition rank_list_of :: "nat \<Rightarrow> int list \<Rightarrow> error + real list" where
  "rank_list_of k indices =
     (if list_all (\<lambda>i. - int k \<le> i \<and> i < int k) indices
      then Inr (map (\<lambda>j. if j \<in> set (map (norm_index k) indices) then 1 else 0) [0..<k])
      else Inl IndexError)"

text \<open>
  \<open>np.mean\<close> of a non-empty array. Every per-user call below is on a non-empty array:
  \<open>rank_list\<close> has \<open>k\<close> elements and is only averaged after an assignment into it has
  succeeded, so \<open>k > 0\<close>; the prefixes \<open>rank_list[:i+1]\<close> are non-empty; and \<open>ap\<close> is
  averaged after the assertion that it has as many elements as \<open>common_items\<close>.
\<close>

definition mean :: "real list \<Rightarrow> real" where
  "mean xs = sum_list xs / real (length xs)"

text \<open>
  The final \<open>np.mean\<close> over the per-user values: for an empty list numpy warns and
  returns \<open>nan\<close>, which is no real number.
\<close>

datatype np_float = Finite real | NaN

definition np_mean :: "real list \<Rightarrow> np_float" where
  "np_mean xs = (if xs = [] then NaN else Finite (mean xs))"

text \<open>The body of the loop in \<open>precision_at_k\<close>, for one user.\<close>

definition precision_user :: "int list \<Rightarrow> int list \<Rightarrow> nat \<Rightarrow> error + real" where
  "precision_user y_true y_reco k =
     (let (common_items, indices_in_true, indices_in_reco) = intersect1d y_true y_reco
      in if 0 < length common_items then
           (case rank_list_of k indices_in_reco of
              Inl e \<Rightarrow> Inl e
            | Inr rank_list \<Rightarrow> Inr (mean rank_list))
         else Inr 0)"

text \<open>
  The body of the loop in \<open>recall_at_k\<close>: \<open>len(common_items) / len(y_true)\<close> is a
  division of Python ints, which raises on a zero divisor.
\<close>

definition recall_user :: "int list \<Rightarrow> int list \<Rightarrow> error + real" where
  "recall_user y_true y_reco =
     (let common_items = intersect1d_values y_true y_reco
      in if 0 < length common_items then
           (if length y_true = 0 then Inl ZeroDivisionError
            else Inr (real (length common_items) / real (length y_true)))
         else Inr 0)"

text \<open>\<open>average_precision_at_k\<close>, with its assertion.\<close>

definition average_precision_at_k :: "int list \<Rightarrow> int list \<Rightarrow> nat \<Rightarrow> error + real" where
  "average_precision_at_k y_true y_reco k =
     (let (common_items, indices_in_true, indices_in_reco) = intersect1d y_true y_reco
      in if 0 < length common_items then
           (case rank_list_of k indices_in_reco of
              Inl e \<Rightarrow> Inl e
            | Inr rank_list \<Rightarrow>
                let ap = map (\<lambda>i. mean (take (i + 1) rank_list))
                           (filter (\<lambda>i. rank_list ! i \<noteq> 0) [0..<k])
                in if length ap = length common_items then Inr (mean ap)
                   else Inl AssertionError)
         else Inr 0)"

text \<open>
  The gain of a relevance list as \<open>ndcg_at_k\<close> computes it, for \<open>rank_list\<close> and for
  \<open>ideal_list\<close> alike:
  \<^verbatim>\<open>rank_list[0] + np.sum(rank_list[1:] / np.log2(np.arange(2, k+1)))\<close>
  The two arrays of the quotient have \<open>k - 1\<close> elements each.
\<close>

definition dcg :: "real list \<Rightarrow> nat \<Rightarrow> real" where
  "dcg rank_list k =
     rank_list ! 0 +
     sum_list (map2 (/) (tl rank_list) (map (\<lambda>n. log 2 (real n)) [2..<k + 1]))"

text \<open>The body of the loop in \<open>ndcg_at_k\<close>; \<open>np.sort(rank_list)[::-1]\<close> is the reversed sort.\<close>

definition ndcg_user :: "int list \<Rightarrow> int list \<Rightarrow> nat \<Rightarrow> error + real" where
  "ndcg_user y_true y_reco k =
     (let (common_items, indices_in_true, indices_in_reco) = intersect1d y_true y_reco
      in if 0 < length common_items then
           (case rank_list_of k indices_in_reco of
              Inl e \<Rightarrow> Inl e
            | Inr rank_list \<Rightarrow>
                let ideal_list = rev (sort rank_list);
                    dcg_value = dcg rank_list k;
                    idcg_value = dcg ideal_list k
                in Inr (dcg_value / idcg_value))
         else Inr 0)"

text \<open>
  The loops \<open>for u in users\<close>: both dictionaries are read for every user (\<open>KeyError\<close>
  for a missing one), the per-user values are appended in order, and the first exception
  ends the call.
\<close>

fun per_user ::
  "('u \<rightharpoonup> int list) \<Rightarrow> ('u \<rightharpoonup> int list) \<Rightarrow> (int list \<Rightarrow> int list \<Rightarrow> error + real)
     \<Rightarrow> 'u list \<Rightarrow> error + real list" where
  "per_user y_true_list y_reco_list f [] = Inr []"
| "per_user y_true_list y_reco_list f (u # users) =
     (case y_true_list u of
        None \<Rightarrow> Inl KeyError
      | Some y_true \<Rightarrow>
          (case y_reco_list u of
             None \<Rightarrow> Inl KeyError
           | Some y_reco \<Rightarrow>
               (case f y_true y_reco of
                  Inl e \<Rightarrow> Inl e
                | Inr v \<Rightarrow>
                    (case per_user y_true_list y_reco_list f users of
                       Inl e \<Rightarrow> Inl e
                     | Inr vs \<Rightarrow> Inr (v # vs)))))"

definition precision_at_k ::
  "('u \<rightharpoonup> int list) \<Rightarrow> ('u \<rightharpoonup> int list) \<Rightarrow> 'u list \<Rightarrow> nat \<Rightarrow> error + np_float" where
  "precision_at_k y_true_list y_reco_list users k =
     map_sum id np_mean
       (per_user y_true_list y_reco_list (\<lambda>y_true y_reco. precision_user y_true y_reco k) users)"

definition recall_at_k ::
  "('u \<rightharpoonup> int list) \<Rightarrow> ('u \<rightharpoonup> int list) \<Rightarrow> 'u list \<Rightarrow> nat \<Rightarrow> error + np_float" where
  "recall_at_k y_true_list y_reco_list users k =
     map_sum id np_mean (per_user y_true_list y_reco_list recall_user users)"

definition map_at_k ::
  "('u \<rightharpoonup> int list) \<Rightarrow> ('u \<rightharpoonup> int list) \<Rightarrow> 'u list \<Rightarrow> nat \<Rightarrow> error + np_float" where
  "map_at_k y_true_list y_reco_list users k =
     map_sum id np_mean
       (per_user y_true_list y_reco_list
          (\<lambda>y_true y_reco. average_precision_at_k y_true y_reco k) users)"

definition ndcg_at_k ::
  "('u \<rightharpoonup> int list) \<Rightarrow> ('u \<rightharpoonup> int list) \<Rightarrow> 'u list \<Rightarrow> nat \<Rightarrow> error + np_float" where
  "ndcg_at_k y_true_list y_reco_list users k =
     map_sum id np_mean
       (per_user y_true_list y_reco_list (\<lambda>y_true y_reco. ndcg_user y_true y_reco k) users)"

section \<open>The selection loop numpy runs for a small kth\<close>

text \<open>
  numpy's \<open>introselect\<close> (the routine behind \<open>np.argpartition\<close>) starts from the
  index array \<open>0, 1, ..., n-1\<close> and, whenever the normalised \<open>kth\<close> is below 3,
  runs this selection loop (\<open>adumb_select\<close> in numpy's \<open>selection.c.src\<close>):
  \<^verbatim>\<open>
    for (i = 0; i <= kth; i++) {
        npy_intp minidx = i;
        type minval = v[tosort[i]];
        for (k = i + 1; k < num; k++) {
            if (v[tosort[k]] < minval) { minidx = k; minval = v[tosort[k]]; }
        }
        SWAP(tosort[i], tosort[minidx]);
    }
  \<close>
  For a larger \<open>kth\<close> numpy partitions around a median-of-three pivot instead; that
  path is not modelled, and \<open>argpartition_select\<close> runs the selection loop for every
  \<open>kth\<close>. It is the function that the closed examples below pass for the parameter
  \<open>argpartition\<close>; each of them calls it with a normalised \<open>kth\<close> below 3.
\<close>

fun find_min :: "real list \<Rightarrow> nat list \<Rightarrow> nat \<Rightarrow> real \<Rightarrow> nat list \<Rightarrow> nat" where
  "find_min v tosort minidx minval [] = minidx"
| "find_min v tosort minidx minval (k # ks) =
     (if v ! (tosort ! k) < minval then find_min v tosort k (v ! (tosort ! k)) ks
      else find_min v tosort minidx minval ks)"

definition swap :: "nat \<Rightarrow> nat \<Rightarrow> 'a list \<Rightarrow> 'a list" where
  "swap i j xs = xs[i := xs ! j, j := xs ! i]"

definition select_step :: "real list \<Rightarrow> nat list \<Rightarrow> nat \<Rightarrow> nat list" where
  "select_step v tosort i =
     swap i (find_min v tosort i (v ! (tosort ! i)) [Suc i..<length tosort]) tosort"

definition adumb_select :: "real list \<Rightarrow> nat list \<Rightarrow> nat \<Rightarrow> nat list" where
  "adumb_select v tosort kth = foldl (select_step v) tosort [0..<Suc kth]"

definition argpartition_select :: "real list \<Rightarrow> int \<Rightarrow> error + nat list" where
  "argpartition_select a kth =
     (let n = length a in
      if n = 0 then Inr []
      else if kth < - int n \<or> int n \<le> kth then Inl ValueError
      else Inr (adumb_select a [0..<n] (norm_kth n kth)))"

text \<open>
  A small trained \<open>WideDeep\<close> model for the closed examples: four items, two users, and
  an engine whose batch scoring fails on an id outside the tables.
\<close>

definition wd_example :: wide_deep where
  "wd_example =
     \<lparr>task = Rating, n_users = 2, n_items = 4, default_prediction = 3,
      lower_bound = 1, upper_bound = 5, user_consumed = [1 \<mapsto> [1]],
      batch_sampling = False, n_epochs = 1,
      output_recommend = (\<lambda>u. [1/10, 9/10, 1/2, 7/10]),
      output_predict = (\<lambda>us is.
         if length us = length is \<and> list_all (\<lambda>u. 0 \<le> u \<and> u < 2) us \<and>
            list_all (\<lambda>i. 0 \<le> i \<and> i < 4) is
         then Inr (map2 (\<lambda>u i. real_of_int (u + i + 1)) us is)
         else Inl IndexError)\<rparr>"

text \<open>A second model with three items, two of them with the same score.\<close>

definition wd_ties :: wide_deep where
  "wd_ties =
     \<lparr>task = Rating, n_users = 2, n_items = 3, default_prediction = 3,
      lower_bound = 1, upper_bound = 5, user_consumed = [1 \<mapsto> []],
      batch_sampling = False, n_epochs = 1,
      output_recommend = (\<lambda>u. [9/10, 9/10, 3/10]),
      output_predict = (\<lambda>us is. Inr (map (\<lambda>u. 4) us))\<rparr>"

section \<open>Notions used in the statements\<close>

text \<open>The example model as a ranking model (still without \<open>batch_sampling\<close>).\<close>

definition wd_ranking :: wide_deep where
  "wd_ranking = wd_example\<lparr>task := Ranking\<rparr>"

text \<open>
  Two notions for the statements: \<open>zero_at index xs\<close> is \<open>xs\<close> with 0 at the positions
  in \<open>index\<close>, and \<open>flagged self us is\<close> is the set of positions that \<open>_check_unknown\<close>
  collects for the user ids \<open>us\<close> and the item ids \<open>is\<close> (see \<open>flagged_iff\<close>: the
  positions where the user id or the item id is out of range).
\<close>

definition zero_at :: "nat set \<Rightarrow> int list \<Rightarrow> int list" where
  "zero_at index xs = map (\<lambda>i. if i \<in> index then 0 else xs ! i) [0..<length xs]"

definition flagged :: "'a base_scheme \<Rightarrow> int list \<Rightarrow> int list \<Rightarrow> nat set" where
  "flagged self us is =
     set (unknown_positions (n_users self) us) \<union> set (unknown_positions (n_items self) is)"




text \<open>A store with two arrays: user ids \<open>[1, 7]\<close> at address 0, item ids \<open>[2, 3]\<close> at 1.\<close>

definition h0 :: heap where
  "h0 = \<lparr>cells = (\<lambda>a. [])(0 := [1, 7], 1 := [2, 3]), next_addr = 2\<rparr>"

text \<open>
  A stable sort of the positions \<open>0, ..., n-1\<close> by their values orders them by value
  and, among equal values, by position: \<open>lexlt f\<close> is that order.
\<close>

definition lexlt :: "(nat \<Rightarrow> int) \<Rightarrow> nat \<Rightarrow> nat \<Rightarrow> bool" where
  "lexlt f a b = (f a < f b \<or> (f a = f b \<and> a < b))"

text \<open>
  \<open>hits y_true y_reco\<close>: the positions of the recommendation list whose item is in the
  ground truth. When neither array repeats an item, \<open>intersect1d\<close> returns exactly these
  positions as \<open>indices_in_reco\<close>, and as many common items.
\<close>

definition hits :: "int list \<Rightarrow> int list \<Rightarrow> nat set" where
  "hits y_true y_reco = {j. j < length y_reco \<and> y_reco ! j \<in> set y_true}"

text \<open>\<open>indicator_list k H\<close>: the relevance indicator of length \<open>k\<close> with 1 at the positions in \<open>H\<close>.\<close>

definition indicator_list :: "nat \<Rightarrow> nat set \<Rightarrow> real list" where
  "indicator_list k H = map (\<lambda>j. if j \<in> H then 1 else 0) [0..<k]"

text \<open>
  The weight that \<open>dcg\<close> gives to position \<open>i\<close>: 1 at position 0, and \<open>1 / log2(i + 1)\<close>
  at every later position (the divisors are \<open>log2\<close> of \<open>2, 3, ..., k\<close>).
\<close>

definition discount :: "nat \<Rightarrow> real" where
  "discount i = (if i = 0 then 1 else 1 / log 2 (real (i + 1)))"

text \<open>
  \<open>selected v j p\<close>: the first \<open>j\<close> positions of the index array \<open>p\<close> are final, each
  holds a value that is not larger than any value at or after it.
\<close>

definition selected :: "real list \<Rightarrow> nat \<Rightarrow> nat list \<Rightarrow> bool" where
  "selected v j p = (\<forall>a < j. \<forall>b. a \<le> b \<and> b < length p \<longrightarrow> v ! (p ! a) \<le> v ! (p ! b))"



section \<open>The single-user guard and user 0\<close>

text \<open>
  C4. The specification: every user id in \<open>[0, n_users)\<close>, user 0 included, gets a
  recommendation list, and only ids outside the range get no result. The guard
  \<open>_check_unknown_user\<close> returns the id 0 unchanged, but \<open>recommend_user\<close> tests the
  returned value with \<open>if not user\<close>, which is also true for the id 0: for user 0 the
  function returns no result whatever the model holds, also when \<open>0 < n_users\<close>.
\<close>

theorem recommend_user_zero_no_result:
  "WideDeep_recommend_user argpartition self 0 n_rec = Inr None"
  by (simp add: WideDeep_recommend_user_def check_unknown_user_def)


lemma recommend_user_no_result_iff:
  "WideDeep_recommend_user argpartition self user n_rec = Inr None
     \<longleftrightarrow> \<not> (0 < user \<and> user < n_users self)"
  by (auto simp: WideDeep_recommend_user_def check_unknown_user_def Let_def
           split: sum.splits)

lemma YouTubeMatch_recommend_user_zero:
  "YouTubeMatch_recommend_user argpartition self 0 n_rec = Inr None"
  by (simp add: YouTubeMatch_recommend_user_def check_unknown_user_def)

section \<open>Top-N selection: the output contract\<close>

lemma slice_from_neg:
  assumes "0 \<le> cnt" "cnt \<le> int (length p)"
  shows "slice_from p (- cnt) = (if cnt = 0 then p else drop (length p - nat cnt) p)"
  using assms by (auto simp: slice_from_def Let_def max_def nat_diff_distrib' intro: arg_cong2[where f=drop])

lemma is_argpartition_perm:
  assumes "is_argpartition a kth r" "- int (length a) \<le> kth" "kth < int (length a) \<or> a = []"
  shows "\<exists>p. r = Inr p \<and> mset p = mset [0..<length a]"
  using assms by (cases r) (auto simp: is_argpartition_def Let_def split: if_splits)

lemma is_argpartition_out_of_bounds:
  assumes "is_argpartition a kth r" "a \<noteq> []" "kth < - int (length a) \<or> int (length a) \<le> kth"
  shows "r = Inl ValueError"
  using assms by (auto simp: is_argpartition_def Let_def split: if_splits)

lemma select_ids_Inr:
  assumes ap: "is_argpartition recos (- cnt) (argpartition recos (- cnt))"
    and "0 \<le> cnt" "cnt \<le> int (length recos)"
  shows "\<exists>ids. select_ids argpartition recos cnt = Inr ids \<and> distinct ids \<and>
           set ids \<subseteq> {..<length recos} \<and> cnt \<le> int (length ids)"
proof -
  have "kth_ok": "- int (length recos) \<le> - cnt" "- cnt < int (length recos) \<or> recos = []"
    using assms(2,3) by (cases recos; simp)+
  from is_argpartition_perm[OF ap kth_ok] obtain p where
    p: "argpartition recos (- cnt) = Inr p" "mset p = mset [0..<length recos]" by blast
  have len: "length p = length recos" using p(2) by (metis length_upt mset_eq_length minus_nat.diff_0)
  have d: "distinct p" using p(2) by (metis distinct_upt mset_eq_imp_distinct_iff)
  have s: "set p = {..<length recos}" using p(2) by (metis atLeast_upt mset_eq_setD)
  let ?ids = "slice_from p (- cnt)"
  have ids: "?ids = (if cnt = 0 then p else drop (length p - nat cnt) p)"
    using slice_from_neg[of cnt p] assms(2,3) len by simp
  have "distinct ?ids" using d ids by simp
  moreover have "set ?ids \<subseteq> {..<length recos}" using s ids by (auto dest: in_set_dropD)
  moreover have "cnt \<le> int (length ?ids)" using ids len assms(2,3) by auto
  ultimately show ?thesis using p(1) by (simp add: select_ids_def)
qed

lemma zip_map_self: "zip xs (map f xs) = map (\<lambda>x. (x, f x)) xs"
  by (induction xs) auto

lemma rank_ids_Inr:
  assumes "set ids \<subseteq> {..<length recos}"
  shows "rank_ids recos ids = Inr (sort_key (\<lambda>x. - snd x) (zip ids (map ((!) recos) ids)))"
  using assms by (auto simp: rank_ids_def take_ids_def list_all_iff)

lemma sorted_wrt_desc_sort_key:
  "sorted_wrt (\<lambda>a b. snd b \<le> snd a) (sort_key (\<lambda>x. - snd x) (xs :: ('a \<times> real) list))"
proof -
  have "sorted (map (\<lambda>x. - snd x) (sort_key (\<lambda>x. - snd x) xs))" by (rule sorted_sort_key)
  then show ?thesis by (simp add: sorted_map)
qed

lemma length_filter_consumed:
  assumes "distinct (map fst rank)"
  shows "length (filter (\<lambda>rec. fst rec \<in> set C) rank) \<le> length C"
proof -
  let ?f = "filter (\<lambda>rec. fst rec \<in> set C) rank"
  have "distinct (map fst ?f)" using assms by (simp add: distinct_map_filter)
  then have "length ?f = card (set (map fst ?f))" by (metis distinct_card length_map)
  also have "\<dots> \<le> card (set C)" by (rule card_mono) auto
  also have "\<dots> \<le> length C" by (rule card_length)
  finally show ?thesis .
qed

lemma top_n_contract:
  assumes ap: "is_argpartition recos (- (n_rec + int (length C))) (argpartition recos (- (n_rec + int (length C))))"
    and n: "0 \<le> n_rec" and le: "n_rec + int (length C) \<le> int (length recos)"
  shows "\<exists>rank. top_n argpartition recos C n_rec = Inr rank \<and>
           (\<forall>rec \<in> set rank. fst rec \<notin> set C \<and> fst rec < length recos \<and> snd rec = recos ! fst rec) \<and>
           int (length rank) = n_rec \<and>
           distinct (map fst rank) \<and>
           sorted_wrt (\<lambda>a b. snd b \<le> snd a) rank"
proof -
  let ?cnt = "n_rec + int (length C)"
  have "0 \<le> ?cnt" using n by simp
  from select_ids_Inr[of recos ?cnt argpartition, OF ap this le] obtain ids where
    ids: "select_ids argpartition recos ?cnt = Inr ids" "distinct ids"
      "set ids \<subseteq> {..<length recos}" "?cnt \<le> int (length ids)" by auto
  let ?z = "zip ids (map ((!) recos) ids)"
  let ?rank = "sort_key (\<lambda>x. - snd x) ?z"
  let ?keep = "filter (\<lambda>rec. fst rec \<notin> set C) ?rank"
  let ?res = "take (nat n_rec) ?keep"
  have r: "rank_ids recos ids = Inr ?rank" by (rule rank_ids_Inr[OF ids(3)])
  have res: "top_n argpartition recos C n_rec = Inr ?res"
    using ids(1) r n by (simp add: top_n_def islice_def)
  have fstz: "map fst ?z = ids" by simp
  have mrank: "mset (map fst ?rank) = mset ids"
    by (metis fstz mset_map mset_sort)
  have drank: "distinct (map fst ?rank)" using mrank ids(2) by (metis mset_eq_imp_distinct_iff)
  have setz: "set ?rank = set ?z" by simp
  have elems: "\<forall>rec \<in> set ?res. fst rec \<notin> set C \<and> fst rec < length recos \<and> snd rec = recos ! fst rec"
  proof
    fix rec assume "rec \<in> set ?res"
    then have k: "rec \<in> set ?keep" by (rule in_set_takeD)
    then have z: "rec \<in> set ?z" and c: "fst rec \<notin> set C" by auto
    from z have "fst rec \<in> set ids" "snd rec = recos ! fst rec"
      by (auto simp: zip_map_self)
    with c ids(3) show "fst rec \<notin> set C \<and> fst rec < length recos \<and> snd rec = recos ! fst rec" by auto
  qed
  have "length ?keep + length (filter (\<lambda>rec. fst rec \<in> set C) ?rank) = length ?rank"
    using sum_length_filter_compl[of "\<lambda>rec. fst rec \<notin> set C" ?rank] by simp
  moreover have "length (filter (\<lambda>rec. fst rec \<in> set C) ?rank) \<le> length C"
    by (rule length_filter_consumed[OF drank])
  moreover have "length ?rank = length ids" by simp
  ultimately have "n_rec \<le> int (length ?keep)" using ids(4) by linarith
  then have len: "int (length ?res) = n_rec" using n by simp
  have d: "distinct (map fst ?res)"
    using drank by (simp add: distinct_map_filter take_map[symmetric] del: take_map)
  have "sorted_wrt (\<lambda>a b. snd b \<le> snd a) ?rank" by (rule sorted_wrt_desc_sort_key)
  then have "sorted_wrt (\<lambda>a b. snd b \<le> snd a) ?keep" by (rule sorted_wrt_filter)
  then have s: "sorted_wrt (\<lambda>a b. snd b \<le> snd a) ?res" by (rule sorted_wrt_take)
  show ?thesis using res elems len d s by blast
qed


lemma WideDeep_recommend_user_known:
  assumes "0 < user" "user < n_users self" "user_consumed self user = Some C"
  shows "WideDeep_recommend_user argpartition self user n_rec =
           map_sum id Some (top_n argpartition (WideDeep_scores self user) C n_rec)"
  using assms
  by (simp add: WideDeep_recommend_user_def check_unknown_user_def lookup_consumed_def
           split: sum.splits)

lemma YouTubeMatch_recommend_user_known:
  assumes "0 < user" "user < n_users self" "user_consumed self user = Some C"
    "nat user < length (user_vector self)"
  shows "YouTubeMatch_recommend_user argpartition self user n_rec =
           map_sum id Some (top_n argpartition (YouTubeMatch_scores self (nat user)) C n_rec)"
  using assms
  by (simp add: YouTubeMatch_recommend_user_def check_unknown_user_def lookup_consumed_def
           split: sum.splits)

lemma argpartition_select_example:
  "argpartition_select [1/10, 9/10, 1/2, 7/10] (-3) = Inr [0, 2, 1, 3]"
  by (simp add: argpartition_select_def adumb_select_def select_step_def swap_def
        norm_kth_def upt_rec)

lemma wd_example_recommend:
  "WideDeep_recommend_user argpartition_select wd_example 1 2 = Inr (Some [(3, 7/10), (2, 1/2)])"
  by (simp add: WideDeep_recommend_user_def WideDeep_scores_def check_unknown_user_def
        wd_example_def lookup_consumed_def top_n_def select_ids_def
        argpartition_select_example slice_from_def rank_ids_def take_ids_def islice_def)

text \<open>
  C5. Top-N output contract. For a known user (\<open>0 < user < n_users\<close>; user 0 is the
  subject of C4) with consumed items \<open>C\<close>, a score vector of length \<open>n_items\<close>, a
  request size \<open>0 <= n_rec\<close> with \<open>n_rec + |C| <= n_items\<close>, and any partial selection
  that meets numpy's contract at the call made, \<open>recommend_user\<close> raises no error and
  returns a list that contains no consumed item, consists of (item, score) pairs of the
  score vector (no padding), has length at most \<open>n_rec\<close> (under the stated size
  condition it is never shorter: the window always holds \<open>n_rec\<close> unconsumed items), names
  no item twice and is ordered by non-increasing score.
\<close>

theorem recommend_user_output_contract:
  assumes "0 < user" and "user < n_users self"
    and "user_consumed self user = Some C"
    and "int (length (WideDeep_scores self user)) = n_items self"
    and "is_argpartition (WideDeep_scores self user) (- (n_rec + int (length C)))
           (argpartition (WideDeep_scores self user) (- (n_rec + int (length C))))"
    and "0 \<le> n_rec" and "n_rec + int (length C) \<le> n_items self"
  shows "\<exists>rank. WideDeep_recommend_user argpartition self user n_rec = Inr (Some rank) \<and>
           (\<forall>rec \<in> set rank. fst rec \<notin> set C \<and> int (fst rec) < n_items self \<and>
                              snd rec = WideDeep_scores self user ! fst rec) \<and>
           int (length rank) \<le> n_rec \<and> int (length rank) = n_rec \<and>
           distinct (map fst rank) \<and>
           sorted_wrt (\<lambda>a b. snd b \<le> snd a) rank"
proof -
  let ?recos = "WideDeep_scores self user"
  have le: "n_rec + int (length C) \<le> int (length ?recos)" using assms(4,7) by simp
  from top_n_contract[of ?recos n_rec C argpartition, OF assms(5,6) le] obtain rank where
    r: "top_n argpartition ?recos C n_rec = Inr rank"
      "\<forall>rec \<in> set rank. fst rec \<notin> set C \<and> fst rec < length ?recos \<and> snd rec = ?recos ! fst rec"
      "int (length rank) = n_rec" "distinct (map fst rank)"
      "sorted_wrt (\<lambda>a b. snd b \<le> snd a) rank" by blast
  have "WideDeep_recommend_user argpartition self user n_rec = Inr (Some rank)"
    using WideDeep_recommend_user_known[OF assms(1-3)] r(1) by simp
  moreover have "\<forall>rec \<in> set rank. fst rec \<notin> set C \<and> int (fst rec) < n_items self \<and>
                              snd rec = ?recos ! fst rec"
    using r(2) assms(4) by auto
  ultimately show ?thesis using r(3-5) by auto
qed

theorem recommend_user_output_contract_witness:
  "(0::int) < 1 \<and> 1 < n_users wd_example \<and> user_consumed wd_example 1 = Some [1] \<and>
   int (length (WideDeep_scores wd_example 1)) = n_items wd_example \<and>
   is_argpartition (WideDeep_scores wd_example 1) (- (2 + int (length [1::nat])))
     (argpartition_select (WideDeep_scores wd_example 1) (- (2 + int (length [1::nat])))) \<and>
   2 + int (length [1::nat]) \<le> n_items wd_example \<and>
   (\<exists>rank. WideDeep_recommend_user argpartition_select wd_example 1 2 = Inr (Some rank) \<and>
      1 \<notin> fst ` set rank \<and> length rank = 2 \<and> sorted_wrt (\<lambda>a b. snd b \<le> snd a) rank) \<and>
   WideDeep_recommend_user argpartition_select wd_example 1 2 = Inr (Some [(3, 7/10), (2, 1/2)])"
proof -
  have h1: "(0::int) < 1" by simp
  have h2: "1 < n_users wd_example" by (simp add: wd_example_def)
  have h3: "user_consumed wd_example 1 = Some [1]" by (simp add: wd_example_def)
  have sc: "WideDeep_scores wd_example 1 = [1/10, 9/10, 1/2, 7/10]"
    by (simp add: WideDeep_scores_def wd_example_def)
  have h4: "int (length (WideDeep_scores wd_example 1)) = n_items wd_example"
    by (simp add: sc) (simp add: wd_example_def)
  have h5: "is_argpartition (WideDeep_scores wd_example 1) (- (2 + int (length [1::nat])))
     (argpartition_select (WideDeep_scores wd_example 1) (- (2 + int (length [1::nat]))))"
    unfolding sc by code_simp
  have h6: "(0::int) \<le> 2" by simp
  have h7: "2 + int (length [1::nat]) \<le> n_items wd_example" by (simp add: wd_example_def)
  from recommend_user_output_contract[where argpartition = argpartition_select,
      OF h1 h2 h3 h4 h5 h6 h7] obtain rank where
    r: "WideDeep_recommend_user argpartition_select wd_example 1 2 = Inr (Some rank)"
       "\<forall>rec \<in> set rank. fst rec \<notin> set [1::nat] \<and> int (fst rec) < n_items wd_example \<and>
                              snd rec = WideDeep_scores wd_example 1 ! fst rec"
       "int (length rank) = 2" "sorted_wrt (\<lambda>a b. snd b \<le> snd a) rank" by blast
  have "1 \<notin> fst ` set rank" using r(2) by auto
  moreover have "length rank = 2" using r(3) by simp
  ultimately have "\<exists>rank. WideDeep_recommend_user argpartition_select wd_example 1 2 = Inr (Some rank) \<and>
      1 \<notin> fst ` set rank \<and> length rank = 2 \<and> sorted_wrt (\<lambda>a b. snd b \<le> snd a) rank"
    using r(1,4) by blast
  then show ?thesis using h1 h2 h3 h4 h5 h7 wd_example_recommend by blast
qed


section \<open>Top-N selection: a window larger than the catalog\<close>

text \<open>
  C2, as amended. The specification has the count clamped to \<open>n_items\<close> when
  \<open>n_rec + |C| > n_items\<close>, and a list returned. Neither \<open>recommend_user\<close> clamps:
  \<open>count\<close> goes to \<open>np.argpartition\<close> as it is, and for a non-empty catalog a
  \<open>kth = -count\<close> below \<open>-n_items\<close> is out of bounds. For a known user and any partial
  selection that meets numpy's contract, the call raises \<open>ValueError\<close>; together with C5,
  a list is returned exactly when the window fits the catalog.
\<close>

theorem recommend_user_window_exceeds_catalog:
  assumes "0 < user" and "user < n_users self"
    and "user_consumed self user = Some C"
    and "int (length (WideDeep_scores self user)) = n_items self"
    and "is_argpartition (WideDeep_scores self user) (- (n_rec + int (length C)))
           (argpartition (WideDeep_scores self user) (- (n_rec + int (length C))))"
    and "0 < n_items self" and "n_items self < n_rec + int (length C)"
  shows "WideDeep_recommend_user argpartition self user n_rec = Inl ValueError"
proof -
  let ?recos = "WideDeep_scores self user"
  have ne: "?recos \<noteq> []" using assms(4,6) by auto
  have "- (n_rec + int (length C)) < - int (length ?recos)" using assms(4,7) by simp
  with is_argpartition_out_of_bounds[OF assms(5) ne]
  have "argpartition ?recos (- (n_rec + int (length C))) = Inl ValueError" by simp
  then have "top_n argpartition ?recos C n_rec = Inl ValueError"
    by (simp add: top_n_def select_ids_def)
  then show ?thesis using WideDeep_recommend_user_known[OF assms(1-3)] by simp
qed

theorem recommend_user_window_exceeds_catalog_witness:
  "(0::int) < 1 \<and> 1 < n_users wd_example \<and> user_consumed wd_example 1 = Some [1] \<and>
   int (length (WideDeep_scores wd_example 1)) = n_items wd_example \<and>
   is_argpartition (WideDeep_scores wd_example 1) (- (4 + int (length [1::nat])))
     (argpartition_select (WideDeep_scores wd_example 1) (- (4 + int (length [1::nat])))) \<and>
   0 < n_items wd_example \<and> n_items wd_example < 4 + int (length [1::nat]) \<and>
   WideDeep_recommend_user argpartition_select wd_example 1 4 = Inl ValueError"
proof -
  have h1: "(0::int) < 1" by simp
  have h2: "1 < n_users wd_example" by (simp add: wd_example_def)
  have h3: "user_consumed wd_example 1 = Some [1]" by (simp add: wd_example_def)
  have sc: "WideDeep_scores wd_example 1 = [1/10, 9/10, 1/2, 7/10]"
    by (simp add: WideDeep_scores_def wd_example_def)
  have h4: "int (length (WideDeep_scores wd_example 1)) = n_items wd_example"
    by (simp add: sc) (simp add: wd_example_def)
  have h5: "is_argpartition (WideDeep_scores wd_example 1) (- (4 + int (length [1::nat])))
     (argpartition_select (WideDeep_scores wd_example 1) (- (4 + int (length [1::nat]))))"
    unfolding sc by code_simp
  have h6: "0 < n_items wd_example" by (simp add: wd_example_def)
  have h7: "n_items wd_example < 4 + int (length [1::nat])" by (simp add: wd_example_def)
  from recommend_user_window_exceeds_catalog[where argpartition = argpartition_select,
      OF h1 h2 h3 h4 h5 h6 h7]
  show ?thesis using h1 h2 h3 h4 h5 h6 h7 by blast
qed

text \<open>
  C2, counterexample: four items, one consumed item, \<open>n_rec = 4\<close>, so the window of 5
  exceeds the catalog; the call raises \<open>ValueError\<close> instead of returning a list.
\<close>

theorem recommend_user_no_clamp_counterexample:
  "WideDeep_recommend_user argpartition_select wd_example 1 4 = Inl ValueError"
  by (simp add: WideDeep_recommend_user_def WideDeep_scores_def check_unknown_user_def
        wd_example_def lookup_consumed_def top_n_def select_ids_def argpartition_select_def)

section \<open>Top-N selection: exactly equal scores\<close>

lemma argpartition_select_ties:
  "argpartition_select [9/10, 9/10, 3/10] (-2) = Inr [2, 1, 0]"
  by (simp add: argpartition_select_def adumb_select_def select_step_def swap_def
        norm_kth_def upt_rec)

text \<open>
  C3, counterexample: scores \<open>[0.9, 0.9, 0.3]\<close>, nothing consumed, \<open>n_rec = 2\<close>. The
  selection loop swaps positions 0 and 2 of the index array, the slice is \<open>[1, 0]\<close>, and
  the stable sort on the score keeps that order: item 1 is returned before item 0 although
  both have the score 0.9.
\<close>

theorem recommend_user_tie_order_counterexample:
  "WideDeep_recommend_user argpartition_select wd_ties 1 2 = Inr (Some [(1, 9/10), (0, 9/10)])"
  by (simp add: WideDeep_recommend_user_def WideDeep_scores_def check_unknown_user_def
        wd_ties_def lookup_consumed_def top_n_def select_ids_def
        argpartition_select_ties slice_from_def rank_ids_def take_ids_def islice_def)

lemma filter_swap: "filter P (filter Q xs) = filter Q (filter P xs)"
  by (induction xs) auto

lemma top_n_stable:
  assumes "top_n argpartition recos C n_rec = Inr rank"
    and "select_ids argpartition recos (n_rec + int (length C)) = Inr ids"
  shows "subseq (map fst (filter (\<lambda>rec. snd rec = s) rank)) ids"
proof -
  let ?z = "zip ids (map ((!) recos) ids)"
  let ?sorted = "sort_key (\<lambda>x. - snd x) ?z"
  let ?keep = "filter (\<lambda>rec. fst rec \<notin> set C) ?sorted"
  let ?eq = "\<lambda>rec :: nat \<times> real. snd rec = s"
  have rank: "rank = take (nat n_rec) ?keep"
    using assms
    by (simp add: top_n_def rank_ids_def take_ids_def islice_def Let_def
          split: sum.splits if_splits)
  have "subseq rank ?keep" unfolding rank by (simp add: prefix_imp_subseq take_is_prefix)
  then have s1: "subseq (filter ?eq rank) (filter ?eq ?keep)"
    by (rule subseq_filter)
  have stable: "filter ?eq ?sorted = filter ?eq ?z"
    using sort_key_stable[of "\<lambda>x. - snd x" "- s" ?z] by simp
  have "filter ?eq ?keep = filter (\<lambda>rec. fst rec \<notin> set C) (filter ?eq ?sorted)"
    by (rule filter_swap)
  also have "\<dots> = filter (\<lambda>rec. fst rec \<notin> set C) (filter ?eq ?z)"
    by (simp only: stable)
  finally have s2: "filter ?eq ?keep = filter (\<lambda>rec. fst rec \<notin> set C) (filter ?eq ?z)" .
  have s3: "subseq (filter (\<lambda>rec. fst rec \<notin> set C) (filter ?eq ?z)) (filter ?eq ?z)"
    by (rule subseq_filter_left)
  have s4: "subseq (filter ?eq ?z) ?z" by (rule subseq_filter_left)
  have "subseq (filter ?eq rank) ?z"
    using s1 s3 s4 unfolding s2 by (blast intro: subseq_order.trans)
  then have "subseq (map fst (filter ?eq rank)) (map fst ?z)"
    by (rule subseq_map)
  then show ?thesis by simp
qed

text \<open>
  C3, as amended. \<open>recommend_user\<close> has no tie-break on the item id: the sort key is the
  negated score alone and \<open>sorted\<close> is stable, so the returned items with one and the same
  score \<open>s\<close> stand in the order in which the selected slice \<open>ids\<close>
  (\<open>np.argpartition(recos, -count)[-count:]\<close>) delivered them.
\<close>

theorem recommend_user_ties_keep_selection_order:
  assumes "WideDeep_recommend_user argpartition self user n_rec = Inr (Some rank)"
    and "user_consumed self user = Some C"
    and "select_ids argpartition (WideDeep_scores self user) (n_rec + int (length C)) = Inr ids"
  shows "subseq (map fst (filter (\<lambda>rec. snd rec = s) rank)) ids"
proof -
  have "top_n argpartition (WideDeep_scores self user) C n_rec = Inr rank"
    using assms(1,2)
    by (auto simp: WideDeep_recommend_user_def lookup_consumed_def Let_def
             split: if_splits sum.splits)
  then show ?thesis using assms(3) by (rule top_n_stable)
qed

theorem recommend_user_ties_keep_selection_order_witness:
  "WideDeep_recommend_user argpartition_select wd_ties 1 2 = Inr (Some [(1, 9/10), (0, 9/10)]) \<and>
   user_consumed wd_ties 1 = Some [] \<and>
   select_ids argpartition_select (WideDeep_scores wd_ties 1) (2 + int (length ([]::nat list)))
     = Inr [1, 0] \<and>
   subseq (map fst (filter (\<lambda>rec. snd rec = 9/10) [(1::nat, 9/10::real), (0, 9/10)])) [1, 0]"
proof -
  have h1: "WideDeep_recommend_user argpartition_select wd_ties 1 2 = Inr (Some [(1, 9/10), (0, 9/10)])"
    by (simp add: WideDeep_recommend_user_def WideDeep_scores_def check_unknown_user_def
        wd_ties_def lookup_consumed_def top_n_def select_ids_def
        argpartition_select_ties slice_from_def rank_ids_def take_ids_def islice_def)
  have h2: "user_consumed wd_ties 1 = Some []" by (simp add: wd_ties_def)
  have h3: "select_ids argpartition_select (WideDeep_scores wd_ties 1) (2 + int (length ([]::nat list)))
     = Inr [1, 0]"
    by (simp add: WideDeep_scores_def wd_ties_def select_ids_def argpartition_select_ties
          slice_from_def)
  from recommend_user_ties_keep_selection_order[OF h1 h2 h3, of "9/10"]
  show ?thesis using h1 h2 h3 by blast
qed


section \<open>The sampling guard of WideDeep.fit\<close>

lemma train_feat_counts:
  "epochs_trained (fold (train_epoch verbose) es l) = epochs_trained l + length es"
  "epochs_evaluated (fold (train_epoch verbose) es l)
     = epochs_evaluated l + (if 1 < verbose then length es else 0)"
  "generator (fold (train_epoch verbose) es l) = generator l"
  by (induction es arbitrary: l; simp add: train_epoch_def Let_def)+

lemma train_feat_eq:
  "train_feat self g verbose =
     \<lparr>generator = g, epochs_trained = n_epochs self,
      epochs_evaluated = (if 1 < verbose then n_epochs self else 0)\<rparr>"
  by (rule fit_log.equality) (simp_all add: train_feat_def train_feat_counts)

text \<open>
  C9, counterexample: a ranking model without \<open>batch_sampling\<close>, training data whose
  \<open>has_sampled\<close> flag is false, \<open>verbose = 2\<close> (evaluation after every epoch). The guard
  is not reached: \<open>fit\<close> raises nothing, trains its one epoch and evaluates it.
\<close>

theorem fit_unguarded_counterexample:
  "WideDeep_fit wd_ranking \<lparr>has_sampled = False\<rparr> 2
     = Inr \<lparr>generator = DataGenFeat, epochs_trained = 1, epochs_evaluated = 1\<rparr>"
  by (simp add: WideDeep_fit_def train_feat_eq wd_ranking_def wd_example_def)

text \<open>
  C9, as amended. \<open>fit\<close> raises \<open>NotSamplingError\<close>, before any epoch is trained or
  evaluated, exactly when the model is a ranking model with \<open>batch_sampling\<close>, the
  training data's \<open>has_sampled\<close> flag is false and \<open>verbose > 1\<close> (evaluation on epochs is
  requested). In every other configuration the guard does not fire: all epochs are
  trained, and evaluated when \<open>verbose > 1\<close>.
\<close>

theorem fit_guard:
  "WideDeep_fit self train_data verbose =
     (if task self = Ranking \<and> batch_sampling self \<and> \<not> has_sampled train_data \<and> 1 < verbose
      then Inl NotSamplingError
      else Inr \<lparr>generator = (if task self = Ranking \<and> batch_sampling self
                              then NegativeSampling else DataGenFeat),
                 epochs_trained = n_epochs self,
                 epochs_evaluated = (if 1 < verbose then n_epochs self else 0)\<rparr>)"
  by (simp add: WideDeep_fit_def check_has_sampled_def train_feat_eq)

lemma fit_raises_iff:
  "WideDeep_fit self train_data verbose = Inl NotSamplingError
     \<longleftrightarrow> task self = Ranking \<and> batch_sampling self \<and> \<not> has_sampled train_data \<and> 1 < verbose"
  by (auto simp add: WideDeep_fit_def check_has_sampled_def)


section \<open>The batch guard: what it does to the arrays\<close>

lemma assign_at_Inr:
  "\<forall>i \<in> index. i < length xs \<Longrightarrow>
     assign_at index v xs = Inr (map (\<lambda>i. if i \<in> index then v else xs ! i) [0..<length xs])"
  by (auto simp: assign_at_def)

lemma set_unknown_positions:
  "set (unknown_positions n xs) = {i. i < length xs \<and> (n \<le> xs ! i \<or> xs ! i < 0)}"
  by (auto simp: unknown_positions_def)

lemma zero_at_idem: "zero_at index (zero_at index xs) = zero_at index xs"
  by (simp add: zero_at_def cong: map_cong)

lemma zero_at_empty: "zero_at {} xs = xs"
  by (simp add: zero_at_def map_nth)

lemma length_zero_at: "length (zero_at index xs) = length xs"
  by (simp add: zero_at_def)


lemma check_unknown_unfold:
  "check_unknown self h user item =
     (let F = flagged self (cells h user) (cells h item) in
      if 0 < card F then
        (case store_assign h user F 0 of
           Inl e \<Rightarrow> Inl e
         | Inr h1 \<Rightarrow>
             (case store_assign h1 item F 0 of
                Inl e \<Rightarrow> Inl e
              | Inr h2 \<Rightarrow> Inr ((card F, F, user, item), h2)))
      else Inr ((card F, F, user, item), h))"
  unfolding check_unknown_def flagged_def Let_def ..

lemma store_assign_Inr:
  assumes "\<forall>i \<in> F. i < length (cells h a)"
  shows "store_assign h a F 0 = Inr (h\<lparr>cells := (cells h)(a := zero_at F (cells h a))\<rparr>)"
  unfolding store_assign_def zero_at_def assign_at_Inr[OF assms] by simp

lemma check_unknown_effect:
  assumes "length (cells h user) = length (cells h item)"
  shows "check_unknown self h user item =
           Inr ((card (flagged self (cells h user) (cells h item)),
                 flagged self (cells h user) (cells h item), user, item),
                h\<lparr>cells := (cells h)
                     (user := zero_at (flagged self (cells h user) (cells h item)) (cells h user),
                      item := zero_at (flagged self (cells h user) (cells h item)) (cells h item))\<rparr>)"
proof -
  define F where "F = flagged self (cells h user) (cells h item)"
  have bound: "\<forall>i \<in> F. i < length (cells h user)" "\<forall>i \<in> F. i < length (cells h item)"
    using assms by (auto simp: F_def flagged_def set_unknown_positions)
  have fin: "finite F" by (simp add: F_def flagged_def)
  show ?thesis
  proof (cases "F = {}")
    case True
    have "h\<lparr>cells := (cells h)(user := cells h user, item := cells h item)\<rparr> = h"
      by simp
    then show ?thesis
      unfolding check_unknown_unfold F_def[symmetric] Let_def using True
      by (simp add: zero_at_empty)
  next
    case False
    then have pos: "0 < card F" using fin by (simp add: card_gt_0_iff)
    define h1 where "h1 = h\<lparr>cells := (cells h)(user := zero_at F (cells h user))\<rparr>"
    have a1: "store_assign h user F 0 = Inr h1"
      unfolding h1_def by (rule store_assign_Inr[OF bound(1)])
    have c1: "cells h1 item = (if item = user then zero_at F (cells h user) else cells h item)"
      by (simp add: h1_def)
    have b2: "\<forall>i \<in> F. i < length (cells h1 item)"
      using bound by (simp add: c1 length_zero_at)
    have z: "zero_at F (cells h1 item) = zero_at F (cells h item)"
      by (simp add: c1 zero_at_idem)
    have a2: "store_assign h1 item F 0
                = Inr (h1\<lparr>cells := (cells h1)(item := zero_at F (cells h item))\<rparr>)"
      using store_assign_Inr[OF b2] z by simp
    have e: "h1\<lparr>cells := (cells h1)(item := zero_at F (cells h item))\<rparr>
           = h\<lparr>cells := (cells h)(user := zero_at F (cells h user),
                                    item := zero_at F (cells h item))\<rparr>"
      by (simp add: h1_def)
    show ?thesis
      unfolding check_unknown_unfold F_def[symmetric] Let_def
      using pos a1 a2 e by simp
  qed
qed





lemma zero_at_nth:
  "i < length xs \<Longrightarrow> zero_at F xs ! i = (if i \<in> F then 0 else xs ! i)"
  by (simp add: zero_at_def)

lemma assign_at_nth:
  assumes "assign_at F v xs = Inr ys"
  shows "length ys = length xs \<and> (\<forall>i < length xs. ys ! i = (if i \<in> F then v else xs ! i))"
  using assms by (auto simp: assign_at_def split: if_splits)



lemma WideDeep_predict_unfold:
  assumes "asarray h user = (ua, h1)" "asarray h1 item = (ia, h2)"
    and "check_unknown self h2 ua ia = Inr ((num, F, ua, ia), h3)"
  shows "WideDeep_predict self h user item =
           (case output_predict self (cells h3 ua) (cells h3 ia) of
                Inl e \<Rightarrow> Inl e
              | Inr preds \<Rightarrow>
                  let preds = (case task self of
                                 Rating \<Rightarrow> map (clip (lower_bound self) (upper_bound self)) preds
                               | Ranking \<Rightarrow> map sigmoid preds)
                  in if 0 < num then
                       (case assign_at F (default_prediction self) preds of
                          Inl e \<Rightarrow> Inl e
                        | Inr preds \<Rightarrow> Inr (preds, h3))
                     else Inr (preds, h3))"
  unfolding WideDeep_predict_def assms Let_def prod.case sum.case ..




lemma flagged_example: "flagged wd_example [1, 7] [2, 3] = {1}"
  by (simp add: flagged_def unknown_positions_def wd_example_def upt_rec)



section \<open>The batch guard writes into the caller's arrays\<close>

lemma check_unknown_h0:
  "check_unknown wd_example h0 0 1 =
     Inr ((1, {1}, 0, 1), h0\<lparr>cells := (cells h0)(0 := [1, 0], 1 := [2, 0])\<rparr>)"
proof -
  have c: "cells h0 0 = [1, 7]" "cells h0 1 = [2, 3]" by (simp_all add: h0_def)
  have z: "zero_at {1} [1, 7] = [1, 0]" "zero_at {1} [2, 3] = [2, 0]"
    by (simp_all add: zero_at_def upt_rec)
  have "length (cells h0 0) = length (cells h0 1)" by (simp add: h0_def)
  from check_unknown_effect[OF this, of wd_example]
  show ?thesis unfolding c flagged_example z by simp
qed

text \<open>
  C10, counterexample: with two users, the user array \<open>[1, 7]\<close> holds an unknown id at
  position 1. After \<open>_check_unknown\<close> the array that was passed in holds \<open>[1, 0]\<close>: the
  caller's array has changed.
\<close>

theorem check_unknown_mutates_counterexample:
  "cells h0 0 = [1, 7] \<and>
   (case check_unknown wd_example h0 0 1 of
      Inl e \<Rightarrow> None
    | Inr (r, h') \<Rightarrow> Some (cells h' 0)) = Some [1, 0]"
  unfolding check_unknown_h0 by (simp add: h0_def)

text \<open>
  C10, as amended. \<open>_check_unknown\<close> sanitizes in place: it returns the two arrays it was
  given (the same addresses), and in the store it leaves behind each of them holds 0 at
  every flagged position and its old element everywhere else; no other array of the store
  changes and no array is allocated.
\<close>

theorem check_unknown_overwrites_in_place:
  assumes "length (cells h user) = length (cells h item)"
  shows "let F = flagged self (cells h user) (cells h item) in
         \<exists>h'. check_unknown self h user item = Inr ((card F, F, user, item), h') \<and>
              length (cells h' user) = length (cells h user) \<and>
              length (cells h' item) = length (cells h item) \<and>
              (\<forall>i < length (cells h user).
                  cells h' user ! i = (if i \<in> F then 0 else cells h user ! i) \<and>
                  cells h' item ! i = (if i \<in> F then 0 else cells h item ! i)) \<and>
              (\<forall>a. a \<noteq> user \<and> a \<noteq> item \<longrightarrow> cells h' a = cells h a) \<and>
              next_addr h' = next_addr h"
proof -
  define F where "F = flagged self (cells h user) (cells h item)"
  define h' where "h' = h\<lparr>cells := (cells h)(user := zero_at F (cells h user),
                                             item := zero_at F (cells h item))\<rparr>"
  have chk: "check_unknown self h user item = Inr ((card F, F, user, item), h')"
    unfolding F_def h'_def by (rule check_unknown_effect[OF assms])
  have cu: "cells h' user = zero_at F (cells h user)"
    by (cases "user = item") (simp_all add: h'_def)
  have ci: "cells h' item = zero_at F (cells h item)" by (simp add: h'_def)
  have "\<forall>i < length (cells h user).
                  cells h' user ! i = (if i \<in> F then 0 else cells h user ! i) \<and>
                  cells h' item ! i = (if i \<in> F then 0 else cells h item ! i)"
    using assms by (simp add: cu ci zero_at_nth)
  moreover have "\<forall>a. a \<noteq> user \<and> a \<noteq> item \<longrightarrow> cells h' a = cells h a"
    by (simp add: h'_def)
  moreover have "next_addr h' = next_addr h" by (simp add: h'_def)
  moreover have "length (cells h' user) = length (cells h user)"
    "length (cells h' item) = length (cells h item)"
    by (simp_all add: cu ci length_zero_at)
  ultimately show ?thesis unfolding Let_def F_def[symmetric] using chk by blast
qed

theorem check_unknown_overwrites_in_place_witness:
  "length (cells h0 0) = length (cells h0 1) \<and>
   flagged wd_example (cells h0 0) (cells h0 1) = {1} \<and>
   (\<exists>h'. check_unknown wd_example h0 0 1 = Inr ((1, {1}, 0, 1), h') \<and>
         cells h' 0 ! 1 = 0 \<and> cells h' 1 ! 1 = 0 \<and>
         cells h' 0 ! 0 = cells h0 0 ! 0 \<and> cells h' 1 ! 0 = cells h0 1 ! 0)"
proof -
  have c: "cells h0 0 = [1, 7]" "cells h0 1 = [2, 3]" by (simp_all add: h0_def)
  have g: "length (cells h0 0) = length (cells h0 1)" by (simp add: h0_def)
  have f: "flagged wd_example (cells h0 0) (cells h0 1) = {1}"
    unfolding c by (rule flagged_example)
  note t = check_unknown_overwrites_in_place[OF g, of wd_example, unfolded Let_def f]
  then obtain h' where
    p: "check_unknown wd_example h0 0 1 = Inr ((card {1::nat}, {1}, 0, 1), h')"
       "\<forall>i < length (cells h0 0).
                  cells h' 0 ! i = (if i \<in> {1::nat} then 0 else cells h0 0 ! i) \<and>
                  cells h' 1 ! i = (if i \<in> {1::nat} then 0 else cells h0 1 ! i)"
    by blast
  have l: "length (cells h0 0) = 2" by (simp add: c)
  have "cells h' 0 ! 1 = 0 \<and> cells h' 1 ! 1 = 0" using p(2) l by simp
  moreover have "cells h' 0 ! 0 = cells h0 0 ! 0 \<and> cells h' 1 ! 0 = cells h0 1 ! 0"
    using p(2) l by simp
  moreover have "check_unknown wd_example h0 0 1 = Inr ((1, {1}, 0, 1), h')"
    using p(1) by simp
  ultimately show ?thesis using g f by blast
qed

text \<open>
  The same through \<open>predict\<close>: \<open>np.asarray\<close> does not copy an array, so a caller who
  passes arrays finds them changed after the call.
\<close>

lemma predict_mutates_caller_arrays:
  "\<exists>preds h'. WideDeep_predict wd_example h0 (NdArray 0) (NdArray 1) = Inr (preds, h') \<and>
     cells h' 0 = [1, 0] \<and> cells h' 1 = [2, 0] \<and> cells h0 0 = [1, 7] \<and> cells h0 1 = [2, 3]"
proof -
  define h3 where "h3 = h0\<lparr>cells := (cells h0)(0 := [1, 0], 1 := [2, 0])\<rparr>"
  have c: "cells h3 0 = [1, 0]" "cells h3 1 = [2, 0]" by (simp_all add: h3_def)
  have a: "asarray h0 (NdArray 0) = (0, h0)" "asarray h0 (NdArray 1) = (1, h0)" by simp_all
  have k: "check_unknown wd_example h0 0 1 = Inr ((1, {1}, 0, 1), h3)"
    unfolding h3_def by (rule check_unknown_h0)
  have o: "output_predict wd_example [1, 0] [2, 0] = Inr [4, 1]"
    by (simp add: wd_example_def)
  have t: "task wd_example = Rating" "lower_bound wd_example = 1" "upper_bound wd_example = 5"
    "default_prediction wd_example = 3"
    by (simp_all add: wd_example_def)
  have "WideDeep_predict wd_example h0 (NdArray 0) (NdArray 1) = Inr ([4, 3], h3)"
    unfolding WideDeep_predict_unfold[OF a k] c o t
    by (simp add: assign_at_def clip_def)
  then show ?thesis using c by (simp add: h0_def)
qed


section \<open>Ranking metrics: what intersect1d returns on duplicate-free arrays\<close>

lemma lexlt_trans: "lexlt f a b \<Longrightarrow> lexlt f b c \<Longrightarrow> lexlt f a c"
  by (auto simp: lexlt_def)

lemma lexlt_key: "lexlt f a b \<Longrightarrow> f a \<le> f b"
  by (auto simp: lexlt_def)

lemma insort_lexlt:
  assumes "sorted_wrt (lexlt f) ys" "\<forall>y \<in> set ys. x < y"
  shows "sorted_wrt (lexlt f) (insort_key f x ys)"
  using assms
proof (induction ys)
  case Nil
  then show ?case by simp
next
  case (Cons y ys)
  show ?case
  proof (cases "f x \<le> f y")
    case True
    have "lexlt f x y" using True Cons.prems(2) by (auto simp: lexlt_def)
    moreover have "\<forall>z \<in> set ys. lexlt f x z"
    proof
      fix z assume z: "z \<in> set ys"
      then have "lexlt f y z" using Cons.prems(1) by simp
      with \<open>lexlt f x y\<close> show "lexlt f x z" by (rule lexlt_trans)
    qed
    ultimately show ?thesis using True Cons.prems(1) by simp
  next
    case False
    then have yx: "lexlt f y x" by (simp add: lexlt_def)
    have "sorted_wrt (lexlt f) (insort_key f x ys)"
      using Cons.IH Cons.prems by simp
    moreover have "\<forall>w \<in> set (insort_key f x ys). lexlt f y w"
      using yx Cons.prems(1) by (auto simp: set_insort_key)
    ultimately show ?thesis using False by simp
  qed
qed

lemma sort_key_lexlt:
  "sorted_wrt (<) xs \<Longrightarrow> sorted_wrt (lexlt f) (sort_key f xs)"
proof (induction xs)
  case Nil
  then show ?case by simp
next
  case (Cons x xs)
  then have "sorted_wrt (lexlt f) (sort_key f xs)" "\<forall>y \<in> set (sort_key f xs). x < y"
    by auto
  then show ?case by (simp add: insort_lexlt)
qed

lemma argsort_stable_props:
  "sorted_wrt (lexlt ((!) aux)) (argsort_stable aux)"
  "mset (argsort_stable aux) = mset [0..<length aux]"
  "distinct (argsort_stable aux)"
  "set (argsort_stable aux) = {..<length aux}"
  "length (argsort_stable aux) = length aux"
  unfolding argsort_stable_def
  by (auto simp: sort_key_lexlt sorted_wrt_upt intro!: sort_key_lexlt)

lemma map_argsort_stable: "map ((!) aux) (argsort_stable aux) = sort aux"
proof -
  have "mset (map ((!) aux) (argsort_stable aux)) = mset (map ((!) aux) [0..<length aux])"
    unfolding argsort_stable_def by (simp only: mset_map mset_sort)
  then have "mset (map ((!) aux) (argsort_stable aux)) = mset aux"
    by (simp only: map_nth)
  moreover have "sorted (map ((!) aux) (argsort_stable aux))"
    unfolding argsort_stable_def by (rule sorted_sort_key)
  ultimately show ?thesis by (metis properties_for_sort)
qed


lemma adjacent_pairs:
  assumes S: "sorted_wrt (lexlt f) idx"
    and two: "\<And>a b c. f a = f b \<Longrightarrow> f b = f c \<Longrightarrow> a < b \<Longrightarrow> b < c \<Longrightarrow>
                a \<in> set idx \<Longrightarrow> b \<in> set idx \<Longrightarrow> c \<in> set idx \<Longrightarrow> False"
  shows "{(idx ! j, idx ! Suc j) | j. Suc j < length idx \<and> f (idx ! Suc j) = f (idx ! j)}
           = {(a, b). a \<in> set idx \<and> b \<in> set idx \<and> f a = f b \<and> a < b}"
    (is "?L = ?R")
proof (rule set_eqI, rule iffI)
  fix x assume "x \<in> ?L"
  then obtain j where j: "x = (idx ! j, idx ! Suc j)" "Suc j < length idx"
      "f (idx ! Suc j) = f (idx ! j)" by blast
  have "lexlt f (idx ! j) (idx ! Suc j)"
    using S j(2) by (simp add: sorted_wrt_nth_less)
  then have "idx ! j < idx ! Suc j" using j(3) by (simp add: lexlt_def)
  then show "x \<in> ?R" using j by simp
next
  fix x assume "x \<in> ?R"
  then obtain a b where x: "x = (a, b)" and ab: "a \<in> set idx" "b \<in> set idx" "f a = f b" "a < b"
    by blast
  from ab(1) obtain p where p: "p < length idx" "idx ! p = a" by (auto simp: in_set_conv_nth)
  from ab(2) obtain q where q: "q < length idx" "idx ! q = b" by (auto simp: in_set_conv_nth)
  have "p \<noteq> q" using p q ab(4) by auto
  have "\<not> q < p"
  proof
    assume "q < p"
    then have "lexlt f b a" using S p q by (metis sorted_wrt_nth_less)
    then show False using ab(3,4) by (simp add: lexlt_def)
  qed
  then have pq: "p < q" using \<open>p \<noteq> q\<close> by simp
  have "q = Suc p"
  proof (rule ccontr)
    assume "q \<noteq> Suc p"
    then have lt: "Suc p < q" using pq by simp
    define c where "c = idx ! Suc p"
    have c_in: "c \<in> set idx" using lt q(1) by (simp add: c_def)
    have ac: "lexlt f a c" using S p lt q(1) unfolding c_def
      by (metis Suc_lessD lessI less_trans_Suc sorted_wrt_nth_less)
    have cb: "lexlt f c b" using S q lt unfolding c_def by (metis sorted_wrt_nth_less)
    have "f a \<le> f c" "f c \<le> f b" using ac cb by (auto dest: lexlt_key)
    then have e: "f a = f c" "f c = f b" using ab(3) by auto
    have "a < c" "c < b" using ac cb e by (auto simp: lexlt_def)
    with two[OF e this ab(1) c_in ab(2)] show False by simp
  qed
  then show "x \<in> ?L" using x p q ab(3) by auto
qed


lemma intersect1d_unique:
  assumes d1: "distinct ar1" and d2: "distinct ar2"
    and r: "intersect1d ar1 ar2 = (common, i1, i2)"
  shows "set i2 = int ` hits ar1 ar2" and "length common = card (hits ar1 ar2)"
    and "length i2 = length common"
proof -
  define aux where "aux = ar1 @ ar2"
  define m where "m = length ar1"
  define n where "n = length aux"
  define idx where "idx = argsort_stable aux"
  define f where "f = (!) aux"
  define mask where "mask = filter (\<lambda>j. map f idx ! Suc j = map f idx ! j) [0..<n - 1]"
  have n: "n = m + length ar2" by (simp add: n_def aux_def m_def)
  have len: "length idx = n" by (simp add: idx_def n_def argsort_stable_props)
  have sidx: "set idx = {..<n}" by (simp add: idx_def n_def argsort_stable_props)
  have didx: "distinct idx" by (simp add: idx_def argsort_stable_props)
  have S: "sorted_wrt (lexlt f) idx" by (simp add: idx_def f_def argsort_stable_props)
  have res: "common = map ((!) (map f idx)) mask"
      "i2 = map (\<lambda>j. int (idx ! Suc j) - int m) mask"
    using r unfolding intersect1d_def Let_def mask_def f_def idx_def aux_def m_def n_def
    by (simp_all add: argsort_stable_props)
  have f1: "f a = ar1 ! a" if "a < m" for a using that by (simp add: f_def aux_def m_def nth_append)
  have f2: "f b = ar2 ! (b - m)" if "m \<le> b" for b
    using that by (simp add: f_def aux_def m_def nth_append)
  have split: "a < m \<and> m \<le> b" if "f a = f b" "a < b" "b < n" for a b
  proof (rule ccontr)
    assume c: "\<not> (a < m \<and> m \<le> b)"
    show False
    proof (cases "b < m")
      case True
      then have "ar1 ! a = ar1 ! b" using that f1 by simp
      then show False using d1 True that(2) by (simp add: nth_eq_iff_index_eq m_def)
    next
      case False
      then have am: "m \<le> a" using c by simp
      then have "ar2 ! (a - m) = ar2 ! (b - m)" using that f2 False by simp
      moreover have "a - m < length ar2" "b - m < length ar2" "a - m \<noteq> b - m"
        using am that n by auto
      ultimately show False using d2 by (simp add: nth_eq_iff_index_eq)
    qed
  qed
  have two: "False" if "f a = f b" "f b = f c" "a < b" "b < c"
      "a \<in> set idx" "b \<in> set idx" "c \<in> set idx" for a b c
  proof -
    have "a < m \<and> m \<le> b" using split[of a b] that sidx by simp
    moreover have "b < m \<and> m \<le> c" using split[of b c] that sidx by simp
    ultimately show False by simp
  qed
  have setmask: "set mask = {j. Suc j < n \<and> f (idx ! Suc j) = f (idx ! j)}"
    using len by (auto simp: mask_def)
  have "(\<lambda>j. (idx ! j, idx ! Suc j)) ` set mask
          = {(idx ! j, idx ! Suc j) | j. Suc j < length idx \<and> f (idx ! Suc j) = f (idx ! j)}"
    unfolding setmask len by blast
  also have "\<dots> = {(a, b). a \<in> set idx \<and> b \<in> set idx \<and> f a = f b \<and> a < b}"
    by (rule adjacent_pairs[OF S two])
  finally have pairs: "(\<lambda>j. (idx ! j, idx ! Suc j)) ` set mask
          = {(a, b). a < n \<and> b < n \<and> f a = f b \<and> a < b}"
    unfolding sidx by simp
  have snd_set: "(\<lambda>j. idx ! Suc j) ` set mask = (\<lambda>j. j + m) ` hits ar1 ar2"
  proof -
    have "(\<lambda>j. idx ! Suc j) ` set mask = snd ` ((\<lambda>j. (idx ! j, idx ! Suc j)) ` set mask)"
      by (simp add: image_image)
    also have "\<dots> = snd ` {(a, b). a < n \<and> b < n \<and> f a = f b \<and> a < b}"
      by (simp only: pairs)
    also have "\<dots> = (\<lambda>j. j + m) ` hits ar1 ar2"
    proof (rule set_eqI, rule iffI)
      fix b assume "b \<in> snd ` {(a, b). a < n \<and> b < n \<and> f a = f b \<and> a < b}"
      then obtain a where ab: "a < n" "b < n" "f a = f b" "a < b" by auto
      from split[OF ab(3,4,2)] have am: "a < m" "m \<le> b" by simp_all
      then have "ar2 ! (b - m) = ar1 ! a" using ab(3) f1 f2 by simp
      then have "ar2 ! (b - m) \<in> set ar1" using am(1) by (simp add: m_def)
      moreover have "b - m < length ar2" using ab(2) am(2) n by simp
      ultimately have "b - m \<in> hits ar1 ar2" by (simp add: hits_def)
      then show "b \<in> (\<lambda>j. j + m) ` hits ar1 ar2" using am(2) by force
    next
      fix b assume "b \<in> (\<lambda>j. j + m) ` hits ar1 ar2"
      then obtain j where j: "b = j + m" "j < length ar2" "ar2 ! j \<in> set ar1"
        by (auto simp: hits_def)
      from j(3) obtain a where a: "a < m" "ar1 ! a = ar2 ! j"
        by (auto simp: in_set_conv_nth m_def)
      have "f a = f b" using a j(1) f1[of a] f2[of b] by simp
      moreover have "a < n" "b < n" "a < b" using a(1) j(1,2) n by simp_all
      ultimately have "(a, b) \<in> {(a, b). a < n \<and> b < n \<and> f a = f b \<and> a < b}" by simp
      then have "snd (a, b) \<in> snd ` {(a, b). a < n \<and> b < n \<and> f a = f b \<and> a < b}"
        by (rule imageI)
      then show "b \<in> snd ` {(a, b). a < n \<and> b < n \<and> f a = f b \<and> a < b}" by simp
    qed
    finally show ?thesis .
  qed
  have "set i2 = (\<lambda>b. int b - int m) ` ((\<lambda>j. idx ! Suc j) ` set mask)"
    unfolding res(2) by (simp add: image_image)
  also have "\<dots> = (\<lambda>b. int b - int m) ` ((\<lambda>j. j + m) ` hits ar1 ar2)"
    by (simp only: snd_set)
  also have "\<dots> = int ` hits ar1 ar2" by (simp add: image_image)
  finally show "set i2 = int ` hits ar1 ar2" .
  have inj: "inj_on (\<lambda>j. idx ! Suc j) (set mask)"
  proof (rule inj_onI)
    fix x y assume "x \<in> set mask" "y \<in> set mask" "idx ! Suc x = idx ! Suc y"
    then have "Suc x = Suc y"
      using didx len setmask by (simp add: nth_eq_iff_index_eq)
    then show "x = y" by simp
  qed
  have "distinct mask" by (simp add: mask_def)
  then have "length mask = card (set mask)" by (simp add: distinct_card)
  also have "\<dots> = card ((\<lambda>j. idx ! Suc j) ` set mask)" using inj by (simp add: card_image)
  also have "\<dots> = card ((\<lambda>j. j + m) ` hits ar1 ar2)" by (simp only: snd_set)
  also have "\<dots> = card (hits ar1 ar2)" by (simp add: card_image)
  finally have "length mask = card (hits ar1 ar2)" .
  then show "length common = card (hits ar1 ar2)" by (simp add: res(1))
  show "length i2 = length common" by (simp add: res)
qed


section \<open>Ranking metrics on duplicate-free inputs\<close>

lemma hits_bound: "hits y_true y_reco \<subseteq> {..<length y_reco}"
  by (auto simp: hits_def)

lemma finite_hits: "finite (hits y_true y_reco)"
  by (rule finite_subset[OF hits_bound]) simp

lemma rank_list_of_hits:
  assumes "set i2 = int ` H" "H \<subseteq> {..<k}"
  shows "rank_list_of k i2 = Inr (indicator_list k H)"
proof -
  have ok: "list_all (\<lambda>i. - int k \<le> i \<and> i < int k) i2"
    using assms by (auto simp: list_all_iff)
  have "set (map (norm_index k) i2) = H"
    using assms(1) by (simp add: image_image norm_index_def)
  then show ?thesis using ok by (simp add: rank_list_of_def indicator_list_def)
qed

lemma intersect1d_values_eq: "intersect1d_values ar1 ar2 = fst (intersect1d ar1 ar2)"
  by (simp add: intersect1d_values_def intersect1d_def Let_def map_argsort_stable
        argsort_stable_props)


lemma card_hits_le:
  assumes "distinct y_reco"
  shows "card (hits y_true y_reco) \<le> length y_true"
proof -
  have "inj_on ((!) y_reco) (hits y_true y_reco)"
    using assms by (auto simp: inj_on_def hits_def nth_eq_iff_index_eq)
  then have "card (hits y_true y_reco) = card ((!) y_reco ` hits y_true y_reco)"
    by (simp add: card_image)
  also have "\<dots> \<le> card (set y_true)"
    by (rule card_mono) (auto simp: hits_def)
  also have "\<dots> \<le> length y_true" by (rule card_length)
  finally show ?thesis .
qed

lemma mean_bounds:
  assumes "xs \<noteq> []" "\<forall>x \<in> set xs. 0 \<le> x \<and> x \<le> 1"
  shows "0 \<le> mean xs \<and> mean xs \<le> 1"
proof -
  have "0 \<le> sum_list xs" using assms(2) by (simp add: sum_list_nonneg)
  moreover have "sum_list xs \<le> real (length xs)"
    using assms(2) by (induction xs) auto
  moreover have "0 < real (length xs)" using assms(1) by simp
  ultimately show ?thesis by (simp add: mean_def)
qed

lemma indicator_list_props:
  "length (indicator_list k H) = k"
  "\<forall>x \<in> set (indicator_list k H). 0 \<le> x \<and> x \<le> 1"
  "j < k \<Longrightarrow> indicator_list k H ! j = (if j \<in> H then 1 else 0)"
  by (auto simp: indicator_list_def)

lemma precision_user_unique:
  assumes "distinct y_true" "distinct y_reco" "length y_reco \<le> k"
  shows "precision_user y_true y_reco k =
           Inr (if hits y_true y_reco = {} then 0 else mean (indicator_list k (hits y_true y_reco)))"
proof -
  obtain common i1 i2 where r: "intersect1d y_true y_reco = (common, i1, i2)"
    by (cases "intersect1d y_true y_reco") auto
  note u = intersect1d_unique[OF assms(1,2) r]
  have sub: "hits y_true y_reco \<subseteq> {..<k}" using hits_bound[of y_true y_reco] assms(3) by auto
  have e: "0 < length common \<longleftrightarrow> hits y_true y_reco \<noteq> {}"
    using u(2) finite_hits[of y_true y_reco] by (simp add: card_gt_0_iff)
  show ?thesis
    unfolding precision_user_def r prod.case Let_def e rank_list_of_hits[OF u(1) sub]
    by simp
qed

lemma recall_user_unique:
  assumes "distinct y_true" "distinct y_reco"
  shows "recall_user y_true y_reco =
           Inr (real (card (hits y_true y_reco)) / real (length y_true))"
proof -
  obtain common i1 i2 where r: "intersect1d y_true y_reco = (common, i1, i2)"
    by (cases "intersect1d y_true y_reco") auto
  note u = intersect1d_unique[OF assms(1,2) r]
  have v: "intersect1d_values y_true y_reco = common" by (simp add: intersect1d_values_eq r)
  have le: "card (hits y_true y_reco) \<le> length y_true" by (rule card_hits_le[OF assms(2)])
  show ?thesis
    unfolding recall_user_def v Let_def u(2) using le by auto
qed

lemma filter_indicator:
  assumes "H \<subseteq> {..<k}"
  shows "filter (\<lambda>i. indicator_list k H ! i \<noteq> 0) [0..<k] = filter (\<lambda>i. i \<in> H) [0..<k]"
    and "length (filter (\<lambda>i. i \<in> H) [0..<k]) = card H"
proof -
  show "filter (\<lambda>i. indicator_list k H ! i \<noteq> 0) [0..<k] = filter (\<lambda>i. i \<in> H) [0..<k]"
    by (rule filter_cong) (simp_all add: indicator_list_props)
  have "length (filter (\<lambda>i. i \<in> H) [0..<k]) = card ({x. x \<in> H} \<inter> set [0..<k])"
    by (rule distinct_length_filter) simp
  also have "{x. x \<in> H} \<inter> set [0..<k] = H" using assms by auto
  finally show "length (filter (\<lambda>i. i \<in> H) [0..<k]) = card H" .
qed

lemma average_precision_unique:
  assumes "distinct y_true" "distinct y_reco" "length y_reco \<le> k"
  shows "\<exists>v. average_precision_at_k y_true y_reco k = Inr v \<and> 0 \<le> v \<and> v \<le> 1 \<and>
             (hits y_true y_reco = {} \<longrightarrow> v = 0)"
proof -
  define H where "H = hits y_true y_reco"
  define rel where "rel = indicator_list k H"
  define ap where "ap = map (\<lambda>i. mean (take (i + 1) rel)) (filter (\<lambda>i. rel ! i \<noteq> 0) [0..<k])"
  obtain common i1 i2 where r: "intersect1d y_true y_reco = (common, i1, i2)"
    by (cases "intersect1d y_true y_reco") auto
  note u = intersect1d_unique[OF assms(1,2) r, folded H_def]
  have sub: "H \<subseteq> {..<k}" using hits_bound[of y_true y_reco] assms(3) by (auto simp: H_def)
  have fin: "finite H" by (simp add: H_def finite_hits)
  have e: "0 < length common \<longleftrightarrow> H \<noteq> {}"
    using u(2) fin by (simp add: card_gt_0_iff)
  have lap: "length ap = length common"
    unfolding ap_def rel_def using filter_indicator[OF sub] u(2) by simp
  have val: "average_precision_at_k y_true y_reco k = Inr (if H = {} then 0 else mean ap)"
    unfolding average_precision_at_k_def r prod.case Let_def e rank_list_of_hits[OF u(1) sub]
      sum.case rel_def[symmetric] ap_def[symmetric]
    using lap by simp
  have "0 \<le> mean ap \<and> mean ap \<le> 1" if "H \<noteq> {}"
  proof (rule mean_bounds)
    show "ap \<noteq> []" using that e lap by auto
    show "\<forall>x \<in> set ap. 0 \<le> x \<and> x \<le> 1"
    proof
      fix x assume "x \<in> set ap"
      then obtain i where i: "i < k" "x = mean (take (i + 1) rel)" by (auto simp: ap_def)
      have "length rel = k" by (simp add: rel_def indicator_list_props)
      then have "rel \<noteq> []" using i(1) by auto
      then have "take (i + 1) rel \<noteq> []" by (simp add: take_eq_Nil)
      moreover have "\<forall>y \<in> set (take (i + 1) rel). 0 \<le> y \<and> y \<le> 1"
        using indicator_list_props(2)[of k H] by (auto simp: rel_def dest: in_set_takeD)
      ultimately show "0 \<le> x \<and> x \<le> 1" unfolding i(2) by (rule mean_bounds)
    qed
  qed
  then show ?thesis unfolding val H_def[symmetric] by auto
qed

lemma discount_nonneg: "0 \<le> discount i"
  by (simp add: discount_def)

lemma discount_antimono: "i \<le> j \<Longrightarrow> discount j \<le> discount i"
proof (cases "i = 0")
  case True
  assume "i \<le> j"
  show ?thesis
  proof (cases "j = 0")
    case True
    with \<open>i = 0\<close> show ?thesis by simp
  next
    case False
    then have "(2::real) \<le> real (j + 1)" by simp
    then have "1 \<le> log 2 (real (j + 1))" by (simp add: le_log_iff)
    then show ?thesis using \<open>i = 0\<close> False by (simp add: discount_def)
  qed
next
  case False
  assume ij: "i \<le> j"
  have "(2::real) \<le> real (i + 1)" using False by simp
  then have li: "1 \<le> log 2 (real (i + 1))" by (simp add: le_log_iff)
  have "log 2 (real (i + 1)) \<le> log 2 (real (j + 1))" using ij by simp
  then show ?thesis using False ij li by (simp add: discount_def frac_le)
qed

lemma dcg_sum:
  assumes "length rel = k" "0 < k"
  shows "dcg rel k = (\<Sum>i<k. rel ! i * discount i)"
proof -
  obtain k' where k: "k = Suc k'" using assms(2) by (cases k) auto
  let ?ys = "map (\<lambda>n. log 2 (real n)) [2..<k + 1]"
  have "length [2..<k + 1] = k'" using k length_upt[of 2 "k + 1"] by arith
  then have lys: "length ?ys = k'" by simp
  have lt: "length (tl rel) = k'" using assms(1) k by simp
  have "sum_list (map2 (/) (tl rel) ?ys) = (\<Sum>i<k'. map2 (/) (tl rel) ?ys ! i)"
    using lt lys by (simp add: sum_list_sum_nth atLeast0LessThan del: upt_Suc)
  also have "\<dots> = (\<Sum>i<k'. rel ! Suc i * discount (Suc i))"
  proof (rule sum.cong)
    fix i assume "i \<in> {..<k'}"
    then have i: "i < k'" by simp
    have "map2 (/) (tl rel) ?ys ! i = tl rel ! i / ?ys ! i"
      using i lt lys by (simp del: upt_Suc)
    also have "tl rel ! i = rel ! Suc i" using i lt assms(1) k by (simp add: nth_tl)
    also have "?ys ! i = log 2 (real (Suc i + 1))"
    proof -
      have "2 + i < k + 1" using i k by simp
      then have "[2..<k + 1] ! i = 2 + i" by (rule nth_upt)
      moreover have "i < length [2..<k + 1]" using i \<open>length [2..<k + 1] = k'\<close> by simp
      ultimately have "?ys ! i = log 2 (real (2 + i))" by (simp only: nth_map)
      then show ?thesis by (simp add: add.commute)
    qed
    finally show "map2 (/) (tl rel) ?ys ! i = rel ! Suc i * discount (Suc i)"
      by (simp add: discount_def)
  qed simp
  finally have "dcg rel k = rel ! 0 * discount 0 + (\<Sum>i<k'. rel ! Suc i * discount (Suc i))"
    by (simp add: dcg_def discount_def)
  also have "\<dots> = (\<Sum>i<Suc k'. rel ! i * discount i)"
    by (simp only: sum.lessThan_Suc_shift)
  finally show ?thesis by (simp add: k)
qed

lemma sum_subset_le_prefix:
  fixes w :: "nat \<Rightarrow> real"
  assumes "\<And>i j. i \<le> j \<Longrightarrow> w j \<le> w i"
  shows "finite H \<Longrightarrow> card H = n \<Longrightarrow> sum w H \<le> sum w {..<n}"
proof (induction n arbitrary: H)
  case 0
  then show ?case by simp
next
  case (Suc n)
  have ne: "H \<noteq> {}" using Suc.prems(2) by (cases "H = {}") simp_all
  define x where "x = Max H"
  have xin: "x \<in> H" unfolding x_def using Suc.prems(1) ne by (rule Max_in)
  define H' where "H' = H - {x}"
  have f': "finite H'" unfolding H'_def using Suc.prems(1) by simp
  have c': "card H' = n" unfolding H'_def using Suc.prems xin by simp
  have sub: "H' \<subseteq> {..<x}"
  proof
    fix y assume "y \<in> H'"
    then have y: "y \<in> H" "y \<noteq> x" by (simp_all add: H'_def)
    have "y \<le> x" unfolding x_def using Suc.prems(1) y(1) by (rule Max_ge)
    with y(2) show "y \<in> {..<x}" by simp
  qed
  have "card H' \<le> card {..<x}" using sub by (intro card_mono finite_lessThan)
  then have "n \<le> x" using c' by simp
  then have wx: "w x \<le> w n" by (rule assms)
  have "sum w H = w x + sum w H'"
    unfolding H'_def using Suc.prems(1) xin by (rule sum.remove)
  also have "\<dots> \<le> w n + sum w {..<n}"
    using wx Suc.IH[OF f' c'] by (rule add_mono)
  also have "\<dots> = sum w {..<Suc n}" by (simp only: sum.lessThan_Suc add.commute)
  finally show ?case .
qed

lemma dcg_indicator:
  assumes "H \<subseteq> {..<k}" "0 < k"
  shows "dcg (indicator_list k H) k = sum discount H"
proof -
  have "dcg (indicator_list k H) k = (\<Sum>i<k. indicator_list k H ! i * discount i)"
    by (rule dcg_sum) (simp_all add: indicator_list_props assms(2))
  also have "\<dots> = (\<Sum>i<k. if i \<in> H then discount i else 0)"
    by (rule sum.cong) (simp_all add: indicator_list_props)
  also have "\<dots> = sum discount ({..<k} \<inter> H)"
    by (rule sum.inter_restrict[symmetric]) simp
  also have "{..<k} \<inter> H = H" using assms(1) by auto
  finally show ?thesis .
qed

lemma mset_zero_one:
  fixes xs :: "real list"
  assumes "\<forall>x \<in> set xs. x = 0 \<or> x = 1"
  shows "mset xs = replicate_mset (length (filter (\<lambda>x. x = 0) xs)) 0
                   + replicate_mset (length (filter (\<lambda>x. x = 1) xs)) 1"
  using assms by (induction xs) auto

lemma count_indicator:
  assumes "H \<subseteq> {..<k}"
  shows "length (filter (\<lambda>x. x = 1) (indicator_list k H)) = card H"
    and "length (filter (\<lambda>x. x = 0) (indicator_list k H)) = k - card H"
proof -
  have one: "filter (\<lambda>x. x = 1) (indicator_list k H)
               = map (\<lambda>j. if j \<in> H then 1 else 0) (filter (\<lambda>j. j \<in> H) [0..<k])"
    unfolding indicator_list_def filter_map by (rule arg_cong[where f = "map _"], rule filter_cong) auto
  have zero: "filter (\<lambda>x. x = 0) (indicator_list k H)
               = map (\<lambda>j. if j \<in> H then 1 else 0) (filter (\<lambda>j. j \<notin> H) [0..<k])"
    unfolding indicator_list_def filter_map by (rule arg_cong[where f = "map _"], rule filter_cong) auto
  show c1: "length (filter (\<lambda>x. x = 1) (indicator_list k H)) = card H"
    unfolding one using filter_indicator(2)[OF assms] by simp
  have "length (filter (\<lambda>j. j \<in> H) [0..<k]) + length (filter (\<lambda>j. j \<notin> H) [0..<k]) = k"
    using sum_length_filter_compl[of "\<lambda>j. j \<in> H" "[0..<k]"] by simp
  then show "length (filter (\<lambda>x. x = 0) (indicator_list k H)) = k - card H"
    unfolding zero using filter_indicator(2)[OF assms] by simp
qed

lemma ideal_indicator:
  assumes "H \<subseteq> {..<k}"
  shows "rev (sort (indicator_list k H)) = indicator_list k {..<card H}"
proof -
  define h where "h = card H"
  have hk: "h \<le> k" unfolding h_def using card_mono[OF finite_lessThan assms] by simp
  let ?z = "replicate (k - h) (0::real) @ replicate h 1"
  have "mset (indicator_list k H) = replicate_mset (k - h) 0 + replicate_mset h 1"
    using mset_zero_one[of "indicator_list k H"] count_indicator[OF assms]
    by (auto simp: h_def indicator_list_def)
  then have "mset ?z = mset (indicator_list k H)" by simp
  moreover have "sorted ?z" by (simp add: sorted_append)
  ultimately have "sort (indicator_list k H) = ?z" by (rule properties_for_sort)
  then have "rev (sort (indicator_list k H)) = replicate h 1 @ replicate (k - h) 0" by simp
  also have "\<dots> = indicator_list k {..<h}"
  proof (rule nth_equalityI)
    show "length (replicate h (1::real) @ replicate (k - h) 0) = length (indicator_list k {..<h})"
      using hk by (simp add: indicator_list_props)
  next
    fix i assume "i < length (replicate h (1::real) @ replicate (k - h) 0)"
    then have "i < k" using hk by simp
    then show "(replicate h (1::real) @ replicate (k - h) 0) ! i = indicator_list k {..<h} ! i"
      by (simp add: indicator_list_props nth_append)
  qed
  finally show ?thesis by (simp add: h_def)
qed

lemma ndcg_user_unique:
  assumes "distinct y_true" "distinct y_reco" "length y_reco \<le> k"
  shows "\<exists>v. ndcg_user y_true y_reco k = Inr v \<and> 0 \<le> v \<and> v \<le> 1 \<and>
             (hits y_true y_reco = {} \<longrightarrow> v = 0)"
proof -
  define H where "H = hits y_true y_reco"
  define rel where "rel = indicator_list k H"
  obtain common i1 i2 where r: "intersect1d y_true y_reco = (common, i1, i2)"
    by (cases "intersect1d y_true y_reco") auto
  note u = intersect1d_unique[OF assms(1,2) r, folded H_def]
  have sub: "H \<subseteq> {..<k}" using hits_bound[of y_true y_reco] assms(3) by (auto simp: H_def)
  have fin: "finite H" by (simp add: H_def finite_hits)
  have e: "0 < length common \<longleftrightarrow> H \<noteq> {}"
    using u(2) fin by (simp add: card_gt_0_iff)
  have val: "ndcg_user y_true y_reco k
      = Inr (if H = {} then 0 else dcg rel k / dcg (rev (sort rel)) k)"
    unfolding ndcg_user_def r prod.case Let_def e rank_list_of_hits[OF u(1) sub]
      sum.case rel_def[symmetric]
    by simp
  have "0 \<le> dcg rel k / dcg (rev (sort rel)) k \<and> dcg rel k / dcg (rev (sort rel)) k \<le> 1"
    if ne: "H \<noteq> {}"
  proof -
    have kpos: "0 < k" using sub ne by (cases k) auto
    have hpos: "0 < card H" using ne fin by (simp add: card_gt_0_iff)
    have d: "dcg rel k = sum discount H" unfolding rel_def by (rule dcg_indicator[OF sub kpos])
    have hk: "card H \<le> k" using card_mono[OF finite_lessThan sub] by simp
    have "dcg (rev (sort rel)) k = dcg (indicator_list k {..<card H}) k"
      unfolding rel_def by (simp only: ideal_indicator[OF sub])
    also have "\<dots> = sum discount {..<card H}"
      by (rule dcg_indicator) (use hk kpos in auto)
    finally have i: "dcg (rev (sort rel)) k = sum discount {..<card H}" .
    have le: "sum discount H \<le> sum discount {..<card H}"
      by (rule sum_subset_le_prefix[OF discount_antimono fin refl])
    have nonneg: "0 \<le> sum discount H" by (rule sum_nonneg) (rule discount_nonneg)
    have "discount 0 \<le> sum discount {..<card H}"
      by (rule member_le_sum) (use hpos discount_nonneg in auto)
    then have pos: "0 < sum discount {..<card H}" by (simp add: discount_def)
    show ?thesis unfolding d i using le nonneg pos by simp
  qed
  then show ?thesis unfolding val H_def[symmetric] by auto
qed


lemma per_user_all:
  assumes "\<forall>u \<in> set users. \<exists>yt yr v. y_true_list u = Some yt \<and> y_reco_list u = Some yr \<and>
              f yt yr = Inr v \<and> P v"
  shows "\<exists>vs. per_user y_true_list y_reco_list f users = Inr vs \<and>
              length vs = length users \<and> (\<forall>v \<in> set vs. P v)"
  using assms
proof (induction users)
  case Nil
  then show ?case by simp
next
  case (Cons u users)
  then obtain yt yr v where u: "y_true_list u = Some yt" "y_reco_list u = Some yr"
      "f yt yr = Inr v" "P v" by auto
  from Cons obtain vs where vs: "per_user y_true_list y_reco_list f users = Inr vs"
      "length vs = length users" "\<forall>v \<in> set vs. P v" by auto
  have "per_user y_true_list y_reco_list f (u # users) = Inr (v # vs)"
    using u vs(1) by simp
  then show ?case using u(4) vs(2,3) by simp
qed

lemma np_mean_bounds:
  assumes "vs \<noteq> []" "\<forall>v \<in> set vs. 0 \<le> v \<and> v \<le> 1"
  shows "\<exists>p. np_mean vs = Finite p \<and> 0 \<le> p \<and> p \<le> 1"
  using mean_bounds[OF assms] assms(1) by (simp add: np_mean_def)

lemma precision_user_bounds:
  assumes "distinct y_true" "distinct y_reco" "length y_reco \<le> k"
  shows "\<exists>v. precision_user y_true y_reco k = Inr v \<and> 0 \<le> v \<and> v \<le> 1"
proof (cases "hits y_true y_reco = {}")
  case True
  then show ?thesis using precision_user_unique[OF assms] by simp
next
  case False
  have "hits y_true y_reco \<subseteq> {..<k}" using hits_bound[of y_true y_reco] assms(3) by auto
  with False have "0 < k" by (cases k) auto
  then have "indicator_list k (hits y_true y_reco) \<noteq> []"
    using indicator_list_props(1)[of k "hits y_true y_reco"] by auto
  then have "0 \<le> mean (indicator_list k (hits y_true y_reco)) \<and>
             mean (indicator_list k (hits y_true y_reco)) \<le> 1"
    by (rule mean_bounds) (rule indicator_list_props(2))
  then show ?thesis using precision_user_unique[OF assms] False by simp
qed

lemma recall_user_bounds:
  assumes "distinct y_true" "distinct y_reco"
  shows "\<exists>v. recall_user y_true y_reco = Inr v \<and> 0 \<le> v \<and> v \<le> 1"
proof -
  have "card (hits y_true y_reco) \<le> length y_true" by (rule card_hits_le[OF assms(2)])
  then have "real (card (hits y_true y_reco)) / real (length y_true) \<le> 1"
    by (simp add: divide_le_eq)
  then show ?thesis using recall_user_unique[OF assms] by simp
qed

section \<open>Ranking metrics: bounds\<close>

text \<open>
  C6, as amended. For a non-empty sequence of users, each with a ground-truth array and
  a recommendation array that name no item twice and with at most \<open>k\<close> recommended
  items, the four metrics raise nothing and return a number (not \<open>nan\<close>) in \<open>[0, 1]\<close>.
  (\<open>k >= 1\<close> is not needed: for \<open>k = 0\<close> the recommendations are empty and every value
  is 0.)
\<close>

theorem metric_bounds:
  assumes "users \<noteq> []"
    and "\<forall>u \<in> set users. \<exists>y_true y_reco. y_true_list u = Some y_true \<and>
           y_reco_list u = Some y_reco \<and> distinct y_true \<and> distinct y_reco \<and>
           length y_reco \<le> k"
  shows "(\<exists>p. precision_at_k y_true_list y_reco_list users k = Inr (Finite p) \<and> 0 \<le> p \<and> p \<le> 1) \<and>
         (\<exists>p. recall_at_k y_true_list y_reco_list users k = Inr (Finite p) \<and> 0 \<le> p \<and> p \<le> 1) \<and>
         (\<exists>p. map_at_k y_true_list y_reco_list users k = Inr (Finite p) \<and> 0 \<le> p \<and> p \<le> 1) \<and>
         (\<exists>p. ndcg_at_k y_true_list y_reco_list users k = Inr (Finite p) \<and> 0 \<le> p \<and> p \<le> 1)"
proof -
  have macro: "\<exists>p. map_sum id np_mean (per_user y_true_list y_reco_list f users) = Inr (Finite p) \<and>
                  0 \<le> p \<and> p \<le> 1"
    if f: "\<And>yt yr. distinct yt \<Longrightarrow> distinct yr \<Longrightarrow> length yr \<le> k \<Longrightarrow>
             \<exists>v. f yt yr = Inr v \<and> 0 \<le> v \<and> v \<le> 1" for f
  proof -
    have "\<forall>u \<in> set users. \<exists>yt yr v. y_true_list u = Some yt \<and> y_reco_list u = Some yr \<and>
              f yt yr = Inr v \<and> (0 \<le> v \<and> v \<le> 1)"
    proof
      fix u assume "u \<in> set users"
      with assms(2) obtain yt yr where y: "y_true_list u = Some yt" "y_reco_list u = Some yr"
          "distinct yt" "distinct yr" "length yr \<le> k" by blast
      from f[OF y(3-5)] y(1,2)
      show "\<exists>yt yr v. y_true_list u = Some yt \<and> y_reco_list u = Some yr \<and>
              f yt yr = Inr v \<and> (0 \<le> v \<and> v \<le> 1)" by blast
    qed
    from per_user_all[OF this] obtain vs where
      vs: "per_user y_true_list y_reco_list f users = Inr vs" "length vs = length users"
          "\<forall>v \<in> set vs. 0 \<le> v \<and> v \<le> 1" by blast
    have "vs \<noteq> []" using vs(2) assms(1) by auto
    from np_mean_bounds[OF this vs(3)] show ?thesis by (simp add: vs(1))
  qed
  have "\<exists>p. precision_at_k y_true_list y_reco_list users k = Inr (Finite p) \<and> 0 \<le> p \<and> p \<le> 1"
    unfolding precision_at_k_def by (rule macro) (rule precision_user_bounds)
  moreover have "\<exists>p. recall_at_k y_true_list y_reco_list users k = Inr (Finite p) \<and> 0 \<le> p \<and> p \<le> 1"
    unfolding recall_at_k_def by (rule macro) (rule recall_user_bounds)
  moreover have "\<exists>p. map_at_k y_true_list y_reco_list users k = Inr (Finite p) \<and> 0 \<le> p \<and> p \<le> 1"
    unfolding map_at_k_def
    by (rule macro) (use average_precision_unique in blast)
  moreover have "\<exists>p. ndcg_at_k y_true_list y_reco_list users k = Inr (Finite p) \<and> 0 \<le> p \<and> p \<le> 1"
    unfolding ndcg_at_k_def
    by (rule macro) (use ndcg_user_unique in blast)
  ultimately show ?thesis by blast
qed


section \<open>Ranking metrics: closed examples\<close>

text \<open>
  The example of the specification: ground truth \<open>{3, 7}\<close>, recommendations
  \<open>[7, 1, 3]\<close>, \<open>k = 3\<close>; and a ground truth that repeats an item.
\<close>

lemma intersect1d_example: "intersect1d [3, 7] [7, 1, 3] = ([3, 7], [0, 1], [2, 0])"
  by code_simp

lemma rank_list_example: "rank_list_of 3 [2, 0] = Inr [1, 0, 1]"
  by code_simp

lemma intersect1d_dup: "intersect1d [5, 5, 5] [1] = ([5, 5], [0, 1], [-2, -1])"
  by code_simp

lemma rank_list_dup: "rank_list_of 1 [-2, -1] = Inl IndexError"
  by code_simp

lemma upt_2_4: "[2..<3 + 1] = [2, 3::nat]"
  by code_simp

lemma dcg_example: "dcg [1, 0, 1] 3 = 1 + 1 / log 2 3"
  by (simp add: dcg_def upt_2_4)

lemma dcg_ideal_example: "dcg [1, 1, 0] 3 = 2"
  by (simp add: dcg_def upt_2_4)

lemma sort_example: "rev (sort [1, 0, 1 :: real]) = [1, 1, 0]"
  by simp

lemma ndcg_example: "ndcg_user [3, 7] [7, 1, 3] 3 = Inr ((1 + 1 / log 2 3) / 2)"
  by (simp add: ndcg_user_def intersect1d_example rank_list_example sort_example
        dcg_example dcg_ideal_example del: sort_key_simps)

lemma log_2_3_bounds: "3 / 2 < log 2 3" "log 2 3 < 8 / 5"
proof -
  have a: "log 2 (3 ^ 2) = real 2 * log 2 3" by (rule log_nat_power) simp
  have b: "log 2 (2 ^ 3) = real 3 * log 2 2" by (rule log_nat_power) simp
  have c: "log 2 (2 ^ 3) < log 2 (3 ^ 2)" by (subst log_less_cancel_iff) simp_all
  from a b c show "3 / 2 < log 2 3" by simp
  have a': "log 2 (3 ^ 5) = real 5 * log 2 3" by (rule log_nat_power) simp
  have b': "log 2 (2 ^ 8) = real 8 * log 2 2" by (rule log_nat_power) simp
  have c': "log 2 (3 ^ 5) < log 2 (2 ^ 8)" by (subst log_less_cancel_iff) simp_all
  from a' b' c' show "log 2 3 < 8 / 5" by simp
qed

lemma ndcg_value_bounds:
  "13 / 16 < (1 + 1 / log 2 3) / 2" "(1 + 1 / log 2 3) / 2 < 5 / 6"
proof -
  have p: "0 < log 2 3" using log_2_3_bounds(1) by simp
  have "1 / log 2 3 < 1 / (3 / 2)" using log_2_3_bounds(1) by (intro divide_strict_left_mono) simp_all
  then show "(1 + 1 / log 2 3) / 2 < 5 / 6" by simp
  have "1 / (8 / 5) < 1 / log 2 3" using log_2_3_bounds(2) p by (intro divide_strict_left_mono) simp_all
  then show "13 / 16 < (1 + 1 / log 2 3) / 2" by simp
qed

lemma precision_dup: "precision_user [5, 5, 5] [1] 1 = Inl IndexError"
  unfolding precision_user_def intersect1d_dup Let_def prod.case rank_list_dup by simp

lemma precision_no_users: "precision_at_k Map.empty Map.empty ([] :: nat list) 1 = Inr NaN"
  by (simp add: precision_at_k_def np_mean_def)

lemma precision_at_k_dup:
  "precision_at_k [0 \<mapsto> [5, 5, 5]] [0 \<mapsto> [1]] [0::nat] 1 = Inl IndexError"
  unfolding precision_at_k_def per_user.simps by (simp add: precision_dup del: One_nat_def)

section \<open>Ranking metrics: the macro-average\<close>











section \<open>NDCG: the discount\<close>

text \<open>
  C1, as amended. \<open>ndcg_at_k\<close> divides the indicator at position \<open>i >= 1\<close> by
  \<open>log2(i + 1)\<close> (positions 0 and 1 both count in full): for a user with common items and
  indicator vector \<open>rel\<close> over \<open>k\<close> positions,
  \<open>DCG = rel[0] + sum over i = 1..k-1 of rel[i] / log2(i + 1)\<close>, IDCG is the same sum
  over the indicator sorted descending, and \<open>NDCG = DCG / IDCG\<close>. For
  \<open>y_true = {3, 7}\<close>, \<open>y_reco = [7, 1, 3]\<close>, \<open>k = 3\<close> (see the witness) the indicator
  is \<open>[1, 0, 1]\<close>, \<open>DCG = 1 + 1/log2(3)\<close>, \<open>IDCG = 2\<close> and
  \<open>NDCG = (1 + 1/log2(3)) / 2\<close>, about 0.8155.
\<close>

theorem ndcg_discount_formula:
  assumes "intersect1d y_true y_reco = (common_items, indices_in_true, indices_in_reco)"
    and "common_items \<noteq> []"
    and "rank_list_of k indices_in_reco = Inr rel"
  shows "dcg rel k = rel ! 0 + (\<Sum>i = 1..<k. rel ! i / log 2 (real (i + 1))) \<and>
         dcg (rev (sort rel)) k
           = rev (sort rel) ! 0 + (\<Sum>i = 1..<k. rev (sort rel) ! i / log 2 (real (i + 1))) \<and>
         ndcg_user y_true y_reco k = Inr (dcg rel k / dcg (rev (sort rel)) k)"
proof -
  have formula: "dcg xs k = xs ! 0 + (\<Sum>i = 1..<k. xs ! i / log 2 (real (i + 1)))"
    if "length xs = k" "0 < k" for xs
  proof -
    have "dcg xs k = (\<Sum>i<k. xs ! i * discount i)" by (rule dcg_sum[OF that])
    also have "\<dots> = (\<Sum>i = 0..<k. xs ! i * discount i)" by (simp add: lessThan_atLeast0)
    also have "\<dots> = xs ! 0 * discount 0 + (\<Sum>i = Suc 0..<k. xs ! i * discount i)"
      by (rule sum.atLeast_Suc_lessThan[OF that(2)])
    also have "(\<Sum>i = Suc 0..<k. xs ! i * discount i)
                 = (\<Sum>i = Suc 0..<k. xs ! i / log 2 (real (i + 1)))"
      by (rule sum.cong) (simp_all add: discount_def)
    finally show ?thesis by (simp add: discount_def)
  qed
  have len: "length rel = k"
    using assms(3) by (auto simp: rank_list_of_def split: if_splits)
  have "indices_in_reco \<noteq> []"
    using assms(1,2) by (auto simp: intersect1d_def Let_def)
  then obtain i where "i \<in> set indices_in_reco" by (cases indices_in_reco) auto
  moreover have "list_all (\<lambda>i. - int k \<le> i \<and> i < int k) indices_in_reco"
    using assms(3) by (auto simp: rank_list_of_def split: if_splits)
  ultimately have "- int k \<le> i \<and> i < int k" by (simp add: list_all_iff)
  then have kpos: "0 < k" by auto
  have "ndcg_user y_true y_reco k = Inr (dcg rel k / dcg (rev (sort rel)) k)"
    unfolding ndcg_user_def assms(1) prod.case Let_def assms(3) using assms(2) by simp
  moreover have "length (rev (sort rel)) = k" using len by simp
  ultimately show ?thesis using formula[OF len kpos] formula[OF _ kpos, of "rev (sort rel)"]
    by simp
qed

theorem ndcg_discount_formula_witness:
  "intersect1d [3, 7] [7, 1, 3] = ([3, 7], [0, 1], [2, 0]) \<and> [3, 7 :: int] \<noteq> [] \<and>
   rank_list_of 3 [2, 0] = Inr [1, 0, 1] \<and>
   dcg [1, 0, 1] 3 = 1 + 1 / log 2 3 \<and>
   dcg (rev (sort [1, 0, 1])) 3 = 2 \<and>
   ndcg_user [3, 7] [7, 1, 3] 3 = Inr ((1 + 1 / log 2 3) / 2)"
proof -
  have ne: "[3, 7 :: int] \<noteq> []" by simp
  note t = ndcg_discount_formula[OF intersect1d_example ne rank_list_example]
  have s: "(\<Sum>i = 1..<3. [1, 0, 1 :: real] ! i / log 2 (real (i + 1))) = 1 / log 2 3"
  proof -
    have "{1..<3::nat} = {1, 2}" by auto
    then show ?thesis by simp
  qed
  have s': "(\<Sum>i = 1..<3. [1, 1, 0 :: real] ! i / log 2 (real (i + 1))) = 1"
  proof -
    have "{1..<3::nat} = {1, 2}" by auto
    then show ?thesis by simp
  qed
  have d: "dcg [1, 0, 1] 3 = 1 + 1 / log 2 3" using t s by simp
  have d': "dcg (rev (sort [1, 0, 1])) 3 = 2" using t s' by (simp add: sort_example)
  have "ndcg_user [3, 7] [7, 1, 3] 3 = Inr ((1 + 1 / log 2 3) / 2)"
    using t unfolding d d' by simp
  then show ?thesis using intersect1d_example rank_list_example d d' by simp
qed

text \<open>
  C1, counterexample: for \<open>y_true = {3, 7}\<close>, \<open>y_reco = [7, 1, 3]\<close>, \<open>k = 3\<close> the
  code's DCG is \<open>1 + 1/log2(3)\<close>, which is neither
  \<open>rel[0] + sum of rel[i] / log2(i + 2)\<close> nor 1.5, and the NDCG is below 5/6, not 0.9197.
\<close>

theorem ndcg_discount_counterexample:
  "rank_list_of 3 (snd (snd (intersect1d [3, 7] [7, 1, 3]))) = Inr [1, 0, 1] \<and>
   dcg [1, 0, 1] 3 = 1 + 1 / log 2 3 \<and>
   dcg [1, 0, 1] 3 \<noteq> [1, 0, 1] ! 0 + (\<Sum>i = 1..<3. [1, 0, 1] ! i / log 2 (real (i + 2))) \<and>
   dcg [1, 0, 1] 3 \<noteq> 3 / 2 \<and>
   ndcg_user [3, 7] [7, 1, 3] 3 = Inr ((1 + 1 / log 2 3) / 2) \<and>
   (1 + 1 / log 2 3) / 2 < 5 / 6"
proof -
  have a: "rank_list_of 3 (snd (snd (intersect1d [3, 7] [7, 1, 3]))) = Inr [1, 0, 1]"
    by (simp add: intersect1d_example rank_list_example)
  have "log 2 (2 ^ 2) = real 2 * log 2 2" by (rule log_nat_power) simp
  then have l4: "log 2 4 = 2" by simp
  have "{1..<3::nat} = {1, 2}" by auto
  then have s: "(\<Sum>i = 1..<3. [1, 0, 1 :: real] ! i / log 2 (real (i + 2))) = 1 / 2"
    by (simp add: l4)
  have "1 / log 2 3 > 1 / 2"
    using log_2_3_bounds by (intro divide_strict_left_mono) simp_all
  then have ne: "dcg [1, 0, 1] 3 \<noteq> 3 / 2" by (simp add: dcg_example)
  then have ne': "dcg [1, 0, 1] 3
      \<noteq> [1, 0, 1] ! 0 + (\<Sum>i = 1..<3. [1, 0, 1] ! i / log 2 (real (i + 2)))"
    unfolding s by simp
  show ?thesis using a dcg_example ne ne' ndcg_example ndcg_value_bounds(2) by blast
qed

section \<open>Ranking metrics: where the bounds fail\<close>

text \<open>
  C6, counterexample: with no user to average over, \<open>precision_at_k\<close> returns \<open>nan\<close>;
  and with a ground truth that repeats an item (the recommendations \<open>[1]\<close> are unique and
  no longer than \<open>k = 1\<close>), \<open>intersect1d\<close> reports the positions -2 and -1, and the
  assignment into \<open>rank_list\<close> raises \<open>IndexError\<close>.
\<close>

theorem metric_bounds_counterexample:
  "precision_at_k Map.empty Map.empty ([] :: nat list) 1 = Inr NaN \<and>
   distinct [1 :: int] \<and> length [1 :: int] \<le> 1 \<and>
   precision_at_k [0 \<mapsto> [5, 5, 5]] [0 \<mapsto> [1]] [0::nat] 1 = Inl IndexError"
  using precision_no_users precision_at_k_dup by simp

theorem metric_bounds_witness:
  "[4::nat] \<noteq> [] \<and> distinct [3, 7 :: int] \<and> distinct [7, 1, 3 :: int] \<and>
   length [7, 1, 3 :: int] \<le> 3 \<and>
   (\<exists>p. precision_at_k [4 \<mapsto> [3, 7]] [4 \<mapsto> [7, 1, 3]] [4::nat] 3 = Inr (Finite p) \<and>
        0 \<le> p \<and> p \<le> 1) \<and>
   (\<exists>p. recall_at_k [4 \<mapsto> [3, 7]] [4 \<mapsto> [7, 1, 3]] [4::nat] 3 = Inr (Finite p) \<and>
        0 \<le> p \<and> p \<le> 1) \<and>
   (\<exists>p. map_at_k [4 \<mapsto> [3, 7]] [4 \<mapsto> [7, 1, 3]] [4::nat] 3 = Inr (Finite p) \<and>
        0 \<le> p \<and> p \<le> 1) \<and>
   (\<exists>p. ndcg_at_k [4 \<mapsto> [3, 7]] [4 \<mapsto> [7, 1, 3]] [4::nat] 3 = Inr (Finite p) \<and>
        0 \<le> p \<and> p \<le> 1)"
proof -
  have h1: "[4::nat] \<noteq> []" by simp
  have h2: "\<forall>u \<in> set [4::nat]. \<exists>y_true y_reco. [4 \<mapsto> [3, 7 :: int]] u = Some y_true \<and>
           [4 \<mapsto> [7, 1, 3 :: int]] u = Some y_reco \<and> distinct y_true \<and> distinct y_reco \<and>
           length y_reco \<le> 3"
    by simp
  have d: "distinct [3, 7 :: int]" "distinct [7, 1, 3 :: int]" "length [7, 1, 3 :: int] \<le> 3"
    by simp_all
  from metric_bounds[OF h1 h2] h1 d show ?thesis by blast
qed

section \<open>Ranking metrics: degenerate ground truth\<close>



section \<open>The selection loop meets the contract of argpartition\<close>

text \<open>
  The selection loop is an admissible \<open>np.argpartition\<close> for every array and every
  \<open>kth\<close>, so the contract assumed of the parameter \<open>argpartition\<close> in the statements
  above can be met on every input.
\<close>

lemma find_min_spec:
  assumes "minval = v ! (tosort ! minidx)"
  shows "find_min v tosort minidx minval ks \<in> insert minidx (set ks) \<and>
         v ! (tosort ! find_min v tosort minidx minval ks) \<le> v ! (tosort ! minidx) \<and>
         (\<forall>k \<in> set ks. v ! (tosort ! find_min v tosort minidx minval ks) \<le> v ! (tosort ! k))"
  using assms
proof (induction ks arbitrary: minidx minval)
  case Nil
  then show ?case by simp
next
  case (Cons k ks)
  show ?case
  proof (cases "v ! (tosort ! k) < minval")
    case True
    from Cons.IH[of "v ! (tosort ! k)" k] True Cons.prems
    show ?thesis by auto
  next
    case False
    from Cons.IH[OF Cons.prems] False Cons.prems
    show ?thesis by auto
  qed
qed

lemma select_step_inv:
  assumes i: "i < length p" and inv: "selected v i p"
  shows "mset (select_step v p i) = mset p" and "length (select_step v p i) = length p"
    and "selected v (Suc i) (select_step v p i)"
proof -
  define m where "m = find_min v p i (v ! (p ! i)) [Suc i..<length p]"
  have fm: "m \<in> insert i (set [Suc i..<length p])" "v ! (p ! m) \<le> v ! (p ! i)"
      "\<forall>k \<in> set [Suc i..<length p]. v ! (p ! m) \<le> v ! (p ! k)"
    using find_min_spec[of "v ! (p ! i)" v p i "[Suc i..<length p]"] by (simp_all add: m_def)
  have mi: "i \<le> m" "m < length p" using fm(1) i by auto
  have minimal: "v ! (p ! m) \<le> v ! (p ! b)" if "i \<le> b" "b < length p" for b
    using fm(2,3) that by (cases "b = i") auto
  define q where "q = select_step v p i"
  have q: "q = p[i := p ! m, m := p ! i]" by (simp add: q_def select_step_def swap_def m_def)
  show "mset (select_step v p i) = mset p"
    unfolding q_def[symmetric] q using mi i by (simp add: mset_swap)
  show len: "length (select_step v p i) = length p" unfolding q_def[symmetric] q by simp
  have nth: "q ! b = (if b = m then p ! i else if b = i then p ! m else p ! b)"
    if "b < length p" for b
    using that mi i by (auto simp: q nth_list_update)
  have range: "\<exists>b'. i \<le> b' \<and> b' < length p \<and> q ! b = p ! b'" if "i \<le> b" "b < length p" for b
    using nth[OF that(2)] that mi i by auto
  have "v ! (q ! a) \<le> v ! (q ! b)" if ab: "a < Suc i" "a \<le> b" "b < length q" for a b
  proof (cases "a = i")
    case True
    have bl: "b < length p" using ab(3) by (simp add: q)
    have "q ! a = p ! m" using True nth[OF i] by simp
    moreover obtain b' where "i \<le> b'" "b' < length p" "q ! b = p ! b'"
      using range[of b] ab(2) True bl by auto
    ultimately show ?thesis using minimal by simp
  next
    case False
    then have ai: "a < i" using ab(1) by simp
    have bl: "b < length p" using ab(3) by (simp add: q)
    have qa: "q ! a = p ! a" using nth[of a] ai mi i by simp
    show ?thesis
    proof (cases "i \<le> b")
      case True
      then obtain b' where "i \<le> b'" "b' < length p" "q ! b = p ! b'"
        using range[of b] bl by auto
      then show ?thesis using inv ai qa by (simp add: selected_def)
    next
      case False
      then have "q ! b = p ! b" using nth[OF bl] mi by simp
      then show ?thesis using inv ai qa ab(2) bl by (simp add: selected_def)
    qed
  qed
  then show "selected v (Suc i) (select_step v p i)"
    unfolding q_def[symmetric] selected_def by blast
qed

lemma adumb_select_inv:
  assumes "j \<le> length p"
  shows "mset (foldl (select_step v) p [0..<j]) = mset p \<and>
         length (foldl (select_step v) p [0..<j]) = length p \<and>
         selected v j (foldl (select_step v) p [0..<j])"
  using assms
proof (induction j)
  case 0
  then show ?case by (simp add: selected_def)
next
  case (Suc j)
  define q where "q = foldl (select_step v) p [0..<j]"
  have ih: "mset q = mset p" "length q = length p" "selected v j q"
    using Suc by (simp_all add: q_def)
  have j: "j < length q" using Suc.prems ih(2) by simp
  have "foldl (select_step v) p [0..<Suc j] = select_step v q j" by (simp add: q_def)
  then show ?case using select_step_inv[OF j ih(3)] ih(1,2) by simp
qed

lemma argpartition_select_contract: "is_argpartition a kth (argpartition_select a kth)"
proof (cases "a = [] \<or> kth < - int (length a) \<or> int (length a) \<le> kth")
  case True
  then show ?thesis by (auto simp: is_argpartition_def argpartition_select_def)
next
  case False
  define n where "n = length a"
  define k where "k = norm_kth n kth"
  have kn: "k < n" using False by (auto simp: k_def norm_kth_def n_def)
  define p where "p = adumb_select a [0..<n] k"
  have "Suc k \<le> length [0..<n]" using kn by simp
  from adumb_select_inv[OF this, of a]
  have inv: "mset p = mset [0..<n]" "length p = n" "selected a (Suc k) p"
    by (simp_all add: p_def adumb_select_def)
  have "list_all (\<lambda>i. a ! (p ! i) \<le> a ! (p ! k)) [0..<k]"
    using inv(2,3) kn by (auto simp: list_all_iff selected_def)
  moreover have "list_all (\<lambda>i. a ! (p ! k) \<le> a ! (p ! i)) [k..<n]"
    using inv(2,3) kn by (auto simp: list_all_iff selected_def)
  ultimately show ?thesis
    using False inv(1)
    by (simp add: is_argpartition_def argpartition_select_def Let_def n_def[symmetric]
          k_def[symmetric] p_def[symmetric])
qed

section \<open>Top-N selection in YouTubeMatch\<close>

text \<open>
  \<open>YouTubeMatch.recommend_user\<close> ends with the same statements as
  \<open>WideDeep.recommend_user\<close>; the three results on the selection hold for it as well.
\<close>

lemma length_YouTubeMatch_scores:
  "length (YouTubeMatch_scores self u) = length (item_weights self)"
  by (simp add: YouTubeMatch_scores_def)

lemma YouTubeMatch_output_contract:
  assumes "0 < user" and "user < n_users self"
    and "user_consumed self user = Some C"
    and "nat user < length (user_vector self)"
    and "int (length (item_weights self)) = n_items self"
    and "is_argpartition (YouTubeMatch_scores self (nat user)) (- (n_rec + int (length C)))
           (argpartition (YouTubeMatch_scores self (nat user)) (- (n_rec + int (length C))))"
    and "0 \<le> n_rec" and "n_rec + int (length C) \<le> n_items self"
  shows "\<exists>rank. YouTubeMatch_recommend_user argpartition self user n_rec = Inr (Some rank) \<and>
           (\<forall>rec \<in> set rank. fst rec \<notin> set C \<and> int (fst rec) < n_items self \<and>
                              snd rec = YouTubeMatch_scores self (nat user) ! fst rec) \<and>
           int (length rank) = n_rec \<and>
           distinct (map fst rank) \<and>
           sorted_wrt (\<lambda>a b. snd b \<le> snd a) rank"
proof -
  let ?recos = "YouTubeMatch_scores self (nat user)"
  have le: "n_rec + int (length C) \<le> int (length ?recos)"
    using assms(5,8) by (simp add: length_YouTubeMatch_scores)
  from top_n_contract[of ?recos n_rec C argpartition, OF assms(6,7) le] obtain rank where
    r: "top_n argpartition ?recos C n_rec = Inr rank"
      "\<forall>rec \<in> set rank. fst rec \<notin> set C \<and> fst rec < length ?recos \<and> snd rec = ?recos ! fst rec"
      "int (length rank) = n_rec" "distinct (map fst rank)"
      "sorted_wrt (\<lambda>a b. snd b \<le> snd a) rank" by blast
  have "YouTubeMatch_recommend_user argpartition self user n_rec = Inr (Some rank)"
    using YouTubeMatch_recommend_user_known[OF assms(1-4)] r(1) by simp
  moreover have "\<forall>rec \<in> set rank. fst rec \<notin> set C \<and> int (fst rec) < n_items self \<and>
                              snd rec = ?recos ! fst rec"
    using r(2) assms(5) by (auto simp: length_YouTubeMatch_scores)
  ultimately show ?thesis using r(3-5) by auto
qed

lemma YouTubeMatch_window_exceeds_catalog:
  assumes "0 < user" and "user < n_users self"
    and "user_consumed self user = Some C"
    and "nat user < length (user_vector self)"
    and "int (length (item_weights self)) = n_items self"
    and "is_argpartition (YouTubeMatch_scores self (nat user)) (- (n_rec + int (length C)))
           (argpartition (YouTubeMatch_scores self (nat user)) (- (n_rec + int (length C))))"
    and "0 < n_items self" and "n_items self < n_rec + int (length C)"
  shows "YouTubeMatch_recommend_user argpartition self user n_rec = Inl ValueError"
proof -
  let ?recos = "YouTubeMatch_scores self (nat user)"
  have ne: "?recos \<noteq> []"
    using assms(5,7) length_YouTubeMatch_scores[of self "nat user"] by auto
  have "- (n_rec + int (length C)) < - int (length ?recos)"
    using assms(5,8) by (simp add: length_YouTubeMatch_scores)
  with is_argpartition_out_of_bounds[OF assms(6) ne]
  have "argpartition ?recos (- (n_rec + int (length C))) = Inl ValueError" by simp
  then have "top_n argpartition ?recos C n_rec = Inl ValueError"
    by (simp add: top_n_def select_ids_def)
  then show ?thesis using YouTubeMatch_recommend_user_known[OF assms(1-4)] by simp
qed

lemma YouTubeMatch_ties_keep_selection_order:
  assumes "YouTubeMatch_recommend_user argpartition self user n_rec = Inr (Some rank)"
    and "user_consumed self user = Some C"
    and "select_ids argpartition (YouTubeMatch_scores self (nat user)) (n_rec + int (length C))
           = Inr ids"
  shows "subseq (map fst (filter (\<lambda>rec. snd rec = s) rank)) ids"
proof -
  have "top_n argpartition (YouTubeMatch_scores self (nat user)) C n_rec = Inr rank"
    using assms(1,2)
    by (auto simp: YouTubeMatch_recommend_user_def lookup_consumed_def Let_def
             split: if_splits sum.splits)
  then show ?thesis using assms(3) by (rule top_n_stable)
qed

end
